theory Spec2Isabelle
  imports Complex_Main "HOL-Library.Word" "HOL-Library.Signed_Division"
begin

section \<open>climate.c: data model\<close>

text \<open>
  The embedding follows \<^verbatim>\<open>src/climate.c\<close> on an LP64 platform.
  \<^item> \<^verbatim>\<open>unsigned long\<close> counters are \<open>64 word\<close>: \<open>+\<close> wraps as in C.
  \<^item> \<^verbatim>\<open>long\<close> timestamps are \<open>int\<close>: the only arithmetic on them is the division
    of a \<^verbatim>\<open>long long\<close> by 1000, which cannot leave the range; C's \<open>/\<close> truncates
    towards zero, which is \<open>sdiv\<close>.
  \<^item> \<^verbatim>\<open>float\<close>, \<^verbatim>\<open>double\<close> and \<^verbatim>\<open>long double\<close> values are values of the type
    \<open>fp\<close>: a real number, an infinity or NaN. The assignment of a \<^verbatim>\<open>double\<close> to a
    \<^verbatim>\<open>float\<close> rounds to the nearest binary32 value (\<open>to_float\<close>); arithmetic in
    \<^verbatim>\<open>double\<close> and \<^verbatim>\<open>long double\<close> is taken as exact on finite values (their own
    rounding and overflow are outside the model).
  \<^item> The C library is the environment: the conversions \<^verbatim>\<open>atoll\<close>, \<^verbatim>\<open>atoi\<close>,
    \<^verbatim>\<open>atof\<close>, the allocator and \<^verbatim>\<open>fopen\<close> are parameters of the model.
  \<^item> Passing a null pointer to \<^verbatim>\<open>strcpy\<close>, \<^verbatim>\<open>strcmp\<close> or a conversion, and
    copying more than three bytes into \<^verbatim>\<open>code[3]\<close>, are undefined behaviour in C;
    the model stops there with a \<open>fault\<close>.
\<close>

definition NUM_STATES :: nat where
  "NUM_STATES = 50"

section \<open>Floating-point values\<close>

datatype fp = Fin real | PInf | MInf | NaN

text \<open>Addition, negation, multiplication and the comparisons of IEEE 754: NaN
  propagates through arithmetic and every comparison with NaN is false.\<close>

fun fp_add :: "fp \<Rightarrow> fp \<Rightarrow> fp" where
  "fp_add NaN y = NaN"
| "fp_add x NaN = NaN"
| "fp_add (Fin a) (Fin b) = Fin (a + b)"
| "fp_add PInf MInf = NaN"
| "fp_add MInf PInf = NaN"
| "fp_add PInf y = PInf"
| "fp_add x PInf = PInf"
| "fp_add MInf y = MInf"
| "fp_add x MInf = MInf"

fun fp_neg :: "fp \<Rightarrow> fp" where
  "fp_neg (Fin a) = Fin (- a)"
| "fp_neg PInf = MInf"
| "fp_neg MInf = PInf"
| "fp_neg NaN = NaN"

fun fp_mul :: "fp \<Rightarrow> fp \<Rightarrow> fp" where
  "fp_mul NaN y = NaN"
| "fp_mul x NaN = NaN"
| "fp_mul (Fin a) (Fin b) = Fin (a * b)"
| "fp_mul (Fin a) y = (if a = 0 then NaN else if (0 < a) = (y = PInf) then PInf else MInf)"
| "fp_mul x (Fin b) = (if b = 0 then NaN else if (0 < b) = (x = PInf) then PInf else MInf)"
| "fp_mul x y = (if x = y then PInf else MInf)"

fun fp_less :: "fp \<Rightarrow> fp \<Rightarrow> bool" where
  "fp_less NaN y = False"
| "fp_less x NaN = False"
| "fp_less (Fin a) (Fin b) = (a < b)"
| "fp_less x MInf = False"
| "fp_less MInf y = True"
| "fp_less PInf y = False"
| "fp_less x PInf = True"

text \<open>The operators \<open>+\<close>, \<open>-\<close>, \<open>*\<close>, \<open><\<close> and \<open>\<le>\<close> on \<open>fp\<close> are these functions, as the
  operators of C are on its floating types.\<close>

instantiation fp :: "{plus, uminus, minus, times, ord}"
begin

definition plus_fp :: "fp \<Rightarrow> fp \<Rightarrow> fp" where
  "plus_fp x y = fp_add x y"

definition uminus_fp :: "fp \<Rightarrow> fp" where
  "uminus_fp x = fp_neg x"

definition minus_fp :: "fp \<Rightarrow> fp \<Rightarrow> fp" where
  "minus_fp x y = fp_add x (fp_neg y)"

definition times_fp :: "fp \<Rightarrow> fp \<Rightarrow> fp" where
  "times_fp x y = fp_mul x y"

definition less_fp :: "fp \<Rightarrow> fp \<Rightarrow> bool" where
  "less_fp x y = fp_less x y"

definition less_eq_fp :: "fp \<Rightarrow> fp \<Rightarrow> bool" where
  "less_eq_fp x y = (fp_less x y \<or> (x = y \<and> x \<noteq> NaN))"

instance ..

end

text \<open>
  Rounding to binary32, to the nearest value with ties to even. \<open>float_ulp a\<close> is the
  distance between neighbouring \<^verbatim>\<open>float\<close> values at the magnitude \<open>a\<close>: \<open>2 powi e\<close> for
  the least \<open>e\<close> from \<open>-149\<close> with \<open>a < 2 powi (e + 24)\<close>; there is none from \<open>2 ^ 128\<close> on,
  where the result is an infinity.
\<close>

definition rne :: "real \<Rightarrow> int" where
  "rne r =
     (let f = \<lfloor>r\<rfloor>; d = r - of_int f in
      if d < 1 / 2 then f else if 1 / 2 < d then f + 1
      else if even f then f else f + 1)"

definition float_ulp :: "real \<Rightarrow> real option" where
  "float_ulp a = map_option (\<lambda>e. 2 powi e) (find (\<lambda>e. a < 2 powi (e + 24)) [-149..104])"

definition round_float :: "real \<Rightarrow> fp" where
  "round_float x =
     (case float_ulp \<bar>x\<bar> of
        None \<Rightarrow> if 0 < x then PInf else MInf
      | Some u \<Rightarrow>
          (let m = of_int (rne (x / u)) * u in
           if 2 ^ 128 \<le> \<bar>m\<bar> then (if 0 < x then PInf else MInf) else Fin m))"

text \<open>The conversion of a \<^verbatim>\<open>double\<close> to \<^verbatim>\<open>float\<close>.\<close>

fun to_float :: "fp \<Rightarrow> fp" where
  "to_float (Fin x) = round_float x"
| "to_float v = v"

section \<open>The struct and the environment\<close>

record climate_info =
  code :: string
  num_records :: "64 word"
  sum_temperature :: fp
  sum_humidity :: fp
  snow_records :: "64 word"
  sum_cloud_cover :: fp
  lightning_strikes :: "64 word"
  max_temperature :: fp
  min_temperature :: fp
  max_timestamp :: int
  min_timestamp :: int

text \<open>The array \<^verbatim>\<open>struct climate_info *states[NUM_STATES]\<close>: a null pointer is \<open>None\<close>.
  The list carries its length, which is the argument \<^verbatim>\<open>num_states\<close>.\<close>

type_synonym store = "climate_info option list"

record libc =
  atoll :: "string \<Rightarrow> int"
  atoi :: "string \<Rightarrow> int"
  atof :: "string \<Rightarrow> fp"
  malloc_ok :: "nat \<Rightarrow> bool"
  fopen :: "string \<Rightarrow> string list option"

text \<open>
  \<open>malloc_ok L i\<close> tells whether the allocation made for slot \<open>i\<close> succeeds (a slot is
  allocated at most once and never freed). \<open>fopen L path\<close> is \<open>None\<close> when the file
  cannot be opened, and otherwise the chunks that successive \<^verbatim>\<open>fgets(line, 100, file)\<close>
  calls return until end of file.
\<close>

datatype fault = NullPointer | BufferOverflow | OutOfMemory

section \<open>Tokenising a line\<close>

definition is_delim :: "char \<Rightarrow> bool" where
  "is_delim c = (c = CHR 0x09 \<or> c = CHR 0x0A)"

text \<open>A buffer is read as a C string: it ends at the first NUL byte.\<close>

definition c_str :: "string \<Rightarrow> string" where
  "c_str s = takeWhile (\<lambda>c. c \<noteq> CHR 0x00) s"

text \<open>
  One call of \<^verbatim>\<open>strtok(_, "\t\n")\<close> on the text that is left: leading delimiters are
  skipped; at the end of the text the result is the null pointer; otherwise the token
  runs up to the next delimiter, and the scan resumes after it.
\<close>

definition strtok :: "string \<Rightarrow> string option \<times> string" where
  "strtok s =
     (let t = dropWhile is_delim s in
      if t = [] then (None, [])
      else (Some (takeWhile (\<lambda>c. \<not> is_delim c) t),
            drop 1 (dropWhile (\<lambda>c. \<not> is_delim c) t)))"

text \<open>The values that lines 187-196 (and again 206-213) read from the rest of a line.\<close>

record observation =
  obs_timestamp :: int
  obs_humidity :: fp
  obs_snow :: int
  obs_cloud_cover :: fp
  obs_lightning :: int
  obs_temperature :: fp

text \<open>A conversion applied to the result of \<^verbatim>\<open>strtok\<close>, which may be null.\<close>

definition conv :: "(string \<Rightarrow> 'a) \<Rightarrow> string option \<Rightarrow> fault + 'a" where
  "conv f t = (case t of None \<Rightarrow> Inl NullPointer | Some s \<Rightarrow> Inr (f s))"

definition bind :: "fault + 'a \<Rightarrow> ('a \<Rightarrow> fault + 'b) \<Rightarrow> fault + 'b" where
  "bind m f = (case m of Inl e \<Rightarrow> Inl e | Inr x \<Rightarrow> f x)"

text \<open>
  Both branches of the loop body make the same eight \<^verbatim>\<open>strtok(NULL, delim)\<close> calls in
  the same order: timestamp, (geolocation, skipped), humidity, snow, cloud cover,
  lightning, (pressure, skipped), temperature.
\<close>

definition read_fields :: "libc \<Rightarrow> string \<Rightarrow> fault + observation" where
  "read_fields L s1 =
     (let (t1, s2) = strtok s1 in
      bind (conv (atoll L) t1) (\<lambda>ms.
      let timestamp = ms sdiv 1000;
          (t2, s3) = strtok s2;
          (t3, s4) = strtok s3 in
      bind (conv (atof L) t3) (\<lambda>humidity.
      let (t4, s5) = strtok s4 in
      bind (conv (atoi L) t4) (\<lambda>snow.
      let (t5, s6) = strtok s5 in
      bind (conv (atof L) t5) (\<lambda>cloud.
      let (t6, s7) = strtok s6 in
      bind (conv (atoi L) t6) (\<lambda>lightning.
      let (t7, s8) = strtok s7;
          (t8, s9) = strtok s8 in
      bind (conv (atof L) t8) (\<lambda>kelvin.
      let temperature = to_float (kelvin * Fin 1.8 - Fin 459.67) in
      Inr \<lparr> obs_timestamp = timestamp, obs_humidity = humidity, obs_snow = snow,
            obs_cloud_cover = cloud, obs_lightning = lightning,
            obs_temperature = temperature \<rparr>)))))))"

section \<open>The aggregation step of analyze_file\<close>

text \<open>Lines 185-199: the members of a freshly allocated struct.\<close>

definition new_info :: "string \<Rightarrow> observation \<Rightarrow> climate_info" where
  "new_info token ob =
     \<lparr> code = token,
       num_records = 1,
       sum_temperature = obs_temperature ob,
       sum_humidity = obs_humidity ob,
       snow_records = word_of_int (obs_snow ob),
       sum_cloud_cover = obs_cloud_cover ob,
       lightning_strikes = word_of_int (obs_lightning ob),
       max_temperature = obs_temperature ob,
       min_temperature = obs_temperature ob,
       max_timestamp = obs_timestamp ob,
       min_timestamp = obs_timestamp ob \<rparr>"

text \<open>Lines 205-223: the update of a struct whose code matched.\<close>

definition update_max :: "observation \<Rightarrow> climate_info \<Rightarrow> climate_info" where
  "update_max ob a =
     (if obs_temperature ob > max_temperature a
      then a\<lparr> max_temperature := obs_temperature ob, max_timestamp := obs_timestamp ob \<rparr>
      else a)"

definition update_min :: "observation \<Rightarrow> climate_info \<Rightarrow> climate_info" where
  "update_min ob a =
     (if obs_temperature ob < min_temperature a
      then a\<lparr> min_temperature := obs_temperature ob, min_timestamp := obs_timestamp ob \<rparr>
      else a)"

definition update_info :: "climate_info \<Rightarrow> observation \<Rightarrow> climate_info" where
  "update_info a ob =
     update_min ob (update_max ob
       (a\<lparr> num_records := num_records a + 1,
           sum_humidity := sum_humidity a + obs_humidity ob,
           snow_records := snow_records a + word_of_int (obs_snow ob),
           sum_cloud_cover := sum_cloud_cover a + obs_cloud_cover ob,
           lightning_strikes := lightning_strikes a + word_of_int (obs_lightning ob),
           sum_temperature := sum_temperature a + obs_temperature ob \<rparr>))"

text \<open>
  The \<^verbatim>\<open>for\<close> loop of lines 176-227 from index \<open>i\<close> on; \<open>token\<close> is the result of the
  first \<^verbatim>\<open>strtok\<close> call and \<open>rest\<close> the text after it. Both branches end in
  \<^verbatim>\<open>break\<close>; when the loop runs out of slots the array is left as it is.
\<close>

function scan :: "libc \<Rightarrow> string option \<Rightarrow> string \<Rightarrow> store \<Rightarrow> nat \<Rightarrow> fault + store" where
  "scan L token rest states i =
     (if i < length states then
        (case states ! i of
           None \<Rightarrow>
             if \<not> malloc_ok L i then Inl OutOfMemory
             else (case token of
                     None \<Rightarrow> Inl NullPointer
                   | Some tok \<Rightarrow>
                       if length tok > 2 then Inl BufferOverflow
                       else bind (read_fields L rest)
                              (\<lambda>ob. Inr (states[i := Some (new_info tok ob)])))
         | Some a \<Rightarrow>
             (case token of
                None \<Rightarrow> Inl NullPointer
              | Some tok \<Rightarrow>
                  if code a = tok
                  then bind (read_fields L rest)
                         (\<lambda>ob. Inr (states[i := Some (update_info a ob)]))
                  else scan L token rest states (i + 1)))
      else Inr states)"
  by pat_completeness auto

termination
  by (relation "measure (\<lambda>(L, token, rest, states, i). length states - i)") auto

declare scan.simps [simp del]

text \<open>The body of the \<^verbatim>\<open>while (fgets(...))\<close> loop for one line.\<close>

definition ingest_line :: "libc \<Rightarrow> store \<Rightarrow> string \<Rightarrow> fault + store" where
  "ingest_line L states line =
     (let (token, rest) = strtok (c_str line) in scan L token rest states 0)"

fun analyze_file :: "libc \<Rightarrow> string list \<Rightarrow> store \<Rightarrow> fault + store" where
  "analyze_file L [] states = Inr states"
| "analyze_file L (line # lines) states =
     bind (ingest_line L states line) (analyze_file L lines)"

section \<open>print_report and main\<close>

text \<open>
  Standard output is a list of items: \<open>Text\<close> is a string printed as it is, and
  \<open>StateBlock a\<close> stands for the eleven lines that lines 257-267 print for one struct
  (the decimal rendering of the numbers and \<^verbatim>\<open>ctime\<close> are not modelled).
\<close>

datatype printed = Text string | StateBlock climate_info

text \<open>The structs that the loops \<^verbatim>\<open>for (i = 0; i < num_states; ++i) if (states[i] != NULL)\<close>
  visit, in index order.\<close>

definition found :: "store \<Rightarrow> climate_info list" where
  "found states = map the (filter (\<lambda>p. p \<noteq> None) states)"

definition print_report :: "store \<Rightarrow> printed list" where
  "print_report states =
     [Text ''States found: ''] @ map (\<lambda>info. Text (code info @ '' '')) (found states) @
     [Text ''\<newline>''] @ map StateBlock (found states)"

text \<open>The loop of lines 121-130 over \<^verbatim>\<open>argv[1..]\<close>: the output so far, and the array
  or the fault that ended the run.\<close>

fun read_files :: "libc \<Rightarrow> string list \<Rightarrow> store \<Rightarrow> printed list \<times> (fault + store)" where
  "read_files L [] states = ([], Inr states)"
| "read_files L (path # paths) states =
     (case fopen L path of
        None \<Rightarrow>
          (let (out, r) = read_files L paths states
           in (Text (''ERROR: '' @ path @ '' does not exist\<newline>'') # out, r))
      | Some lines \<Rightarrow>
          (case analyze_file L lines states of
             Inl e \<Rightarrow> ([Text (''Opening file: '' @ path @ ''\<newline>'')], Inl e)
           | Inr states' \<Rightarrow>
               (let (out, r) = read_files L paths states'
                in (Text (''Opening file: '' @ path @ ''\<newline>'') # out, r))))"





section \<open>Derived notions used to state the properties\<close>

text \<open>All tokens of a text, by repeated \<open>strtok\<close>.\<close>

function tokens :: "string \<Rightarrow> string list" where
  "tokens s = (case strtok s of (None, r) \<Rightarrow> [] | (Some t, r) \<Rightarrow> t # tokens r)"
  by pat_completeness auto

termination
proof (relation "measure length", goal_cases)
  case 1
  show ?case by simp
next
  case (2 s t r tok)
  then have a: "strtok s = (Some tok, r)" by simp
  define d where "d = dropWhile is_delim s"
  define e where "e = dropWhile (\<lambda>c. \<not> is_delim c) d"
  from a have "d \<noteq> []" and "r = drop 1 e"
    by (auto simp: strtok_def Let_def d_def e_def split: if_splits)
  then have "0 < length d" and "length r = length e - 1"
    by simp_all
  moreover have "length e \<le> length d"
    unfolding e_def by (rule length_dropWhile_le)
  moreover have "length d \<le> length s"
    unfolding d_def by (rule length_dropWhile_le)
  ultimately have "length r < length s" by linarith
  then show ?case by simp
qed

declare tokens.simps [simp del]

text \<open>The region code of a line (the first token) and the values of its other fields.\<close>

definition line_token :: "string \<Rightarrow> string option" where
  "line_token line = fst (strtok (c_str line))"

definition line_obs :: "libc \<Rightarrow> string \<Rightarrow> fault + observation" where
  "line_obs L line = read_fields L (snd (strtok (c_str line)))"

text \<open>A line that decodes into a record: a code that fits \<^verbatim>\<open>code[3]\<close> and eight more
  tokens.\<close>

definition valid_line :: "string \<Rightarrow> bool" where
  "valid_line line =
     (case tokens (c_str line) of
        [] \<Rightarrow> False
      | tok # ts \<Rightarrow> length tok \<le> 2 \<and> 8 \<le> length ts)"

definition line_code :: "string \<Rightarrow> string" where
  "line_code line = (case line_token line of None \<Rightarrow> [] | Some tok \<Rightarrow> tok)"

text \<open>The observation that \<open>read_fields\<close> builds from the tokens after the code.\<close>

definition fields_obs :: "libc \<Rightarrow> string list \<Rightarrow> observation" where
  "fields_obs L fs =
     \<lparr> obs_timestamp = atoll L (fs ! 0) sdiv 1000, obs_humidity = atof L (fs ! 2),
       obs_snow = atoi L (fs ! 3), obs_cloud_cover = atof L (fs ! 4),
       obs_lightning = atoi L (fs ! 5),
       obs_temperature = to_float (atof L (fs ! 7) * Fin 1.8 - Fin 459.67) \<rparr>"

definition line_record :: "libc \<Rightarrow> string \<Rightarrow> observation" where
  "line_record L line = fields_obs L (tl (tokens (c_str line)))"

text \<open>
  An array whose first slots hold the structs \<open>accs\<close> and whose other slots are null,
  and the effect of one line and of a sequence of lines on such an array, written on
  the list of structs.
\<close>

definition store_of :: "nat \<Rightarrow> climate_info list \<Rightarrow> store" where
  "store_of n accs = map Some accs @ replicate (n - length accs) None"

definition step_accs :: "nat \<Rightarrow> string \<Rightarrow> observation \<Rightarrow> climate_info list \<Rightarrow> climate_info list" where
  "step_accs n tok ob accs =
     (if tok \<in> set (map code accs)
      then map (\<lambda>a. if code a = tok then update_info a ob else a) accs
      else if length accs < n then accs @ [new_info tok ob]
      else accs)"

fun run_accs :: "libc \<Rightarrow> nat \<Rightarrow> string list \<Rightarrow> climate_info list \<Rightarrow> climate_info list" where
  "run_accs L n [] accs = accs"
| "run_accs L n (line # lines) accs =
     run_accs L n lines (step_accs n (line_code line) (line_record L line) accs)"

text \<open>The first-seen order of a sequence of codes, starting from the codes already seen.\<close>

fun discover :: "string list \<Rightarrow> string list \<Rightarrow> string list" where
  "discover seen [] = seen"
| "discover seen (c # cs) =
     (if c \<in> set seen then discover seen cs else discover (seen @ [c]) cs)"

text \<open>The contents of all files that can be opened, in argument order.\<close>

fun all_lines :: "libc \<Rightarrow> string list \<Rightarrow> string list" where
  "all_lines L [] = []"
| "all_lines L (path # paths) =
     (case fopen L path of None \<Rightarrow> [] | Some lines \<Rightarrow> lines) @ all_lines L paths"

text \<open>The second token of a line: the text of the timestamp in milliseconds.\<close>

definition line_millis :: "string \<Rightarrow> string option" where
  "line_millis line = fst (strtok (snd (strtok (c_str line))))"



text \<open>The order of the extrema: every struct of the array has a minimum that is at most
  its maximum (a comparison that is false when either is NaN).\<close>

definition extrema_ordered :: "store \<Rightarrow> bool" where
  "extrema_ordered states =
     list_all (\<lambda>s. case s of
                     None \<Rightarrow> True
                   | Some a \<Rightarrow> min_temperature a \<le> max_temperature a)
       states"

text \<open>A line whose temperature, when the line decodes, is not NaN.\<close>

definition numeric_temperature :: "libc \<Rightarrow> string \<Rightarrow> bool" where
  "numeric_temperature L line =
     (case line_obs L line of Inl e \<Rightarrow> True | Inr ob \<Rightarrow> obs_temperature ob \<noteq> NaN)"

section \<open>A concrete environment for examples\<close>

text \<open>
  The value of the C conversions on plain decimal text: optional sign, digits and, for
  \<^verbatim>\<open>atof\<close>, an optional fraction or the lower-case words \<^verbatim>\<open>nan\<close> and \<^verbatim>\<open>inf\<close>; text
  that does not start with a number gives 0. Exponents, hexadecimal notation, other
  spellings of NaN and infinity and values out of range are not covered. The examples
  use only this fragment.
\<close>

definition is_digit :: "char \<Rightarrow> bool" where
  "is_digit c = (48 \<le> (of_char c :: nat) \<and> (of_char c :: nat) \<le> 57)"

fun digits :: "int \<Rightarrow> string \<Rightarrow> int \<times> string" where
  "digits acc [] = (acc, [])"
| "digits acc (c # cs) =
     (if is_digit c then digits (10 * acc + (of_char c - 48)) cs else (acc, c # cs))"

definition signed :: "(string \<Rightarrow> 'a::uminus) \<Rightarrow> string \<Rightarrow> 'a" where
  "signed f s =
     (case dropWhile (\<lambda>c. c = CHR '' '') s of
        [] \<Rightarrow> f []
      | c # cs \<Rightarrow> if c = CHR ''-'' then - f cs else if c = CHR ''+'' then f cs else f (c # cs))"

definition decimal_int :: "string \<Rightarrow> int" where
  "decimal_int = signed (\<lambda>s. fst (digits 0 s))"

definition decimal_real :: "string \<Rightarrow> fp" where
  "decimal_real = signed (\<lambda>s.
     if take 3 s = ''nan'' then NaN
     else if take 3 s = ''inf'' then PInf
     else
       (let (ip, r) = digits 0 s in
        case r of
          [] \<Rightarrow> Fin (of_int ip)
        | c # f \<Rightarrow>
            if c = CHR ''.''
            then (let (fp, r') = digits 0 f
                  in Fin (of_int ip + of_int fp / 10 ^ (length f - length r')))
            else Fin (of_int ip)))"

definition decimal_libc :: "(string \<times> string list) list \<Rightarrow> libc" where
  "decimal_libc files =
     \<lparr> atoll = decimal_int, atoi = decimal_int, atof = decimal_real,
       malloc_ok = (\<lambda>i. True), fopen = map_of files \<rparr>"

text \<open>A line of tab-separated fields, ended by a newline.\<close>

fun tdv :: "string list \<Rightarrow> string" where
  "tdv [] = ''\<newline>''"
| "tdv [f] = f @ ''\<newline>''"
| "tdv (f # fs) = f @ [CHR 0x09] @ tdv fs"

section \<open>Example data\<close>

text \<open>A code of two characters that are neither delimiters nor NUL.\<close>

definition plain_code :: "string \<Rightarrow> bool" where
  "plain_code c = (length c = 2 \<and> list_all (\<lambda>ch. \<not> is_delim ch \<and> ch \<noteq> CHR 0x00) c)"

text \<open>Lines of data files: two observations for TN, one whose timestamp is not a multiple
  of 1000, one with two fields only, one with text in place of numbers, one for DC,
  one with the temperature text \<^verbatim>\<open>nan\<close>, the first line of the sample in the header
  comment of \<^verbatim>\<open>climate.c\<close>, and a line with the same observation for any code.\<close>

definition tn_first :: string where
  "tn_first = tdv [''TN'', ''1420000000000'', ''dn5b'', ''50'', ''0'', ''40'', ''1'', ''99000.0'', ''283.15'']"

definition tn_second :: string where
  "tn_second = tdv [''TN'', ''1420003600000'', ''dn5b'', ''48'', ''1'', ''60'', ''0'', ''98000.0'', ''293.15'']"

definition late_line :: string where
  "late_line = tdv [''TN'', ''1420000000999'', ''dn5b'', ''50'', ''0'', ''40'', ''1'', ''99000.0'', ''283.15'']"

definition short_line :: string where
  "short_line = tdv [''TN'', ''1420000000000'']"

definition garbled_line :: string where
  "garbled_line = tdv [''TN'', ''yesterday'', ''dn5b'', ''damp'', ''no'', ''40'', ''1'', ''99000.0'', ''warm'']"

definition dc_line :: string where
  "dc_line = tdv [''DC'', ''1420000000000'', ''dqcj'', ''50'', ''0'', ''40'', ''1'', ''99000.0'', ''283.15'']"

definition nan_line :: string where
  "nan_line = tdv [''TN'', ''1420000000000'', ''dn5b'', ''50'', ''0'', ''40'', ''1'', ''99000.0'', ''nan'']"


definition mild_line :: "string \<Rightarrow> string" where
  "mild_line c = tdv [c, ''1420000000000'', ''dn5b'', ''50'', ''0'', ''40'', ''1'', ''99000.0'', ''283.15'']"

text \<open>The observations that these lines decode into, and the structs they build.\<close>

definition mild :: observation where
  "mild = \<lparr> obs_timestamp = 1420000000, obs_humidity = Fin 50, obs_snow = 0,
            obs_cloud_cover = Fin 40, obs_lightning = 1, obs_temperature = Fin 50 \<rparr>"

definition garbled :: observation where
  "garbled = \<lparr> obs_timestamp = 0, obs_humidity = Fin 0, obs_snow = 0,
               obs_cloud_cover = Fin 40, obs_lightning = 1,
               obs_temperature = Fin (- (15062467 / 32768)) \<rparr>"

definition nan_obs :: observation where
  "nan_obs = \<lparr> obs_timestamp = 1420000000, obs_humidity = Fin 50, obs_snow = 0,
               obs_cloud_cover = Fin 40, obs_lightning = 1, obs_temperature = NaN \<rparr>"


definition tn_acc :: climate_info where
  "tn_acc = new_info ''TN''
     \<lparr> obs_timestamp = 1420000000, obs_humidity = Fin 50, obs_snow = 0,
       obs_cloud_cover = Fin 40, obs_lightning = 1, obs_temperature = Fin 50 \<rparr>"

definition tn_both :: climate_info where
  "tn_both =
     \<lparr> code = ''TN'', num_records = 2, sum_temperature = Fin 118, sum_humidity = Fin 98,
       snow_records = 1, sum_cloud_cover = Fin 100, lightning_strikes = 1,
       max_temperature = Fin 68, min_temperature = Fin 50,
       max_timestamp = 1420003600, min_timestamp = 1420000000 \<rparr>"

text \<open>Fifty region codes, an array that holds a struct for each of them, and fifty-one
  lines with fifty-one codes.\<close>

definition us_states :: "string list" where
  "us_states =
     [''AL'', ''AK'', ''AZ'', ''AR'', ''CA'', ''CO'', ''CT'', ''DE'', ''FL'', ''GA'',
      ''HI'', ''ID'', ''IL'', ''IN'', ''IA'', ''KS'', ''KY'', ''LA'', ''ME'', ''MD'',
      ''MA'', ''MI'', ''MN'', ''MS'', ''MO'', ''MT'', ''NE'', ''NV'', ''NH'', ''NJ'',
      ''NM'', ''NY'', ''NC'', ''ND'', ''OH'', ''OK'', ''OR'', ''PA'', ''RI'', ''SC'',
      ''SD'', ''TN'', ''TX'', ''UT'', ''VT'', ''VA'', ''WA'', ''WV'', ''WI'', ''WY'']"

definition full_store :: store where
  "full_store = map (\<lambda>c. Some (new_info c mild)) us_states"

definition crowded :: "string list" where
  "crowded = map mild_line us_states @ [dc_line]"

text \<open>Two data files, and the same files with an allocator that always fails.\<close>

definition two_files :: libc where
  "two_files = decimal_libc
     [(''data_tn.tdv'', [tn_first, mild_line ''WA'']),
      (''data_wa.tdv'', [tn_second, dc_line])]"


section \<open>Facts about floating-point values\<close>

lemma fp_finite [simp]:
  "Fin a + Fin b = Fin (a + b)"
  "Fin a - Fin b = Fin (a - b)"
  "Fin a * Fin b = Fin (a * b)"
  "- Fin a = Fin (- a)"
  "Fin a < Fin b \<longleftrightarrow> a < b"
  "Fin a \<le> Fin b \<longleftrightarrow> a \<le> b"
  by (auto simp: plus_fp_def minus_fp_def times_fp_def uminus_fp_def less_fp_def less_eq_fp_def)

lemma fp_nan [simp]:
  "NaN + x = NaN" "x + NaN = NaN" "NaN - x = NaN" "NaN * x = NaN" "- NaN = NaN"
  "\<not> NaN < x" "\<not> x < NaN" "\<not> NaN \<le> x" "\<not> x \<le> NaN"
  by (cases x; simp add: plus_fp_def minus_fp_def times_fp_def uminus_fp_def less_fp_def
      less_eq_fp_def)+

lemma fp_less_le: "x < y \<Longrightarrow> x \<le> y" for x y :: fp
  by (simp add: less_eq_fp_def less_fp_def)

lemma fp_le_refl: "x \<noteq> NaN \<Longrightarrow> x \<le> x" for x :: fp
  by (simp add: less_eq_fp_def)

lemma fp_not_less_le: "x \<noteq> NaN \<Longrightarrow> y \<noteq> NaN \<Longrightarrow> \<not> x < y \<Longrightarrow> y \<le> x" for x y :: fp
  by (cases x; cases y) (auto simp: less_eq_fp_def less_fp_def)

lemma fp_le_not_nan: "x \<le> y \<Longrightarrow> x \<noteq> NaN \<and> y \<noteq> NaN" for x y :: fp
  by (cases x; cases y) (auto simp: less_eq_fp_def less_fp_def)

lemma fp_le_less_trans: "x \<le> y \<Longrightarrow> y < z \<Longrightarrow> x \<le> z" for x y z :: fp
  by (cases x; cases y; cases z) (auto simp: less_eq_fp_def less_fp_def)

lemma fp_less_le_trans: "x < y \<Longrightarrow> y \<le> z \<Longrightarrow> x \<le> z" for x y z :: fp
  by (cases x; cases y; cases z) (auto simp: less_eq_fp_def less_fp_def)


lemmas round_float_unfold = round_float_def float_ulp_def rne_def Let_def

lemma round_float_50: "round_float 50 = Fin 50"
  by (simp add: round_float_unfold)

lemma round_float_68: "round_float 68 = Fin 68"
  by (simp add: round_float_unfold)

lemma round_float_zero_kelvin: "round_float (- (45967 / 100)) = Fin (- (15062467 / 32768))"
  by (simp add: round_float_unfold)

section \<open>Facts about the tokeniser\<close>

lemma strtok_None: "strtok s = (None, r) \<Longrightarrow> r = [] \<and> tokens s = []"
  by (auto simp: strtok_def Let_def tokens.simps split: if_splits)

lemma tokens_strtok_Some: "strtok s = (Some t, r) \<Longrightarrow> tokens s = t # tokens r"
  by (subst tokens.simps) simp

lemma tokens_Nil_strtok: "tokens s = [] \<Longrightarrow> strtok s = (None, [])"
  by (cases "strtok s"; cases "fst (strtok s)")
     (auto simp: tokens_strtok_Some dest: strtok_None)

lemma tokens_Cons_strtok: "tokens s = t # ts \<Longrightarrow> \<exists>r. strtok s = (Some t, r) \<and> tokens r = ts"
  by (cases "strtok s"; cases "fst (strtok s)")
     (auto simp: tokens_strtok_Some dest: strtok_None)

lemma fst_strtok: "fst (strtok s) = (case tokens s of [] \<Rightarrow> None | t # ts \<Rightarrow> Some t)"
  by (cases "tokens s") (auto dest: tokens_Nil_strtok tokens_Cons_strtok)

lemma tokens_snd_strtok: "tokens (snd (strtok s)) = tl (tokens s)"
proof (cases "tokens s")
  case Nil
  then have "strtok s = (None, [])" by (rule tokens_Nil_strtok)
  moreover have "tokens [] = []" by (simp add: tokens.simps strtok_def)
  ultimately show ?thesis using Nil by simp
next
  case (Cons t ts)
  then show ?thesis by (auto dest: tokens_Cons_strtok)
qed

lemmas read_fields_unfold =
  read_fields_def Let_def case_prod_beta fst_strtok tokens_snd_strtok conv_def bind_def

lemma read_fields_long:
  assumes "8 \<le> length (tokens s)"
  shows "read_fields L s = Inr (fields_obs L (tokens s))"
proof -
  from assms obtain f1 f2 f3 f4 f5 f6 f7 f8 r
    where "tokens s = f1 # f2 # f3 # f4 # f5 # f6 # f7 # f8 # r"
    by (auto simp: numeral_eq_Suc Suc_le_length_iff)
  then show ?thesis
    by (simp add: read_fields_unfold fields_obs_def)
qed

lemma read_fields_short:
  assumes "length (tokens s) < 8"
  shows "read_fields L s = Inl NullPointer"
proof -
  have "length xs < 8 \<Longrightarrow> tokens s = xs \<Longrightarrow> read_fields L s = Inl NullPointer" for xs
    by (auto simp: numeral_eq_Suc less_Suc_eq length_Suc_conv read_fields_unfold)
  from this [OF assms] show ?thesis by simp
qed

lemma read_fields_tokens:
  "read_fields L s =
     (if 8 \<le> length (tokens s) then Inr (fields_obs L (tokens s)) else Inl NullPointer)"
  by (simp add: read_fields_long read_fields_short)

lemma valid_line_iff:
  "valid_line line \<longleftrightarrow> (\<exists>tok. line_token line = Some tok \<and> length tok \<le> 2 \<and> line_obs L line = Inr (line_record L line))"
  by (cases "tokens (c_str line)")
     (auto simp: valid_line_def line_token_def line_obs_def line_record_def fst_strtok
        read_fields_tokens tokens_snd_strtok)

lemma valid_lineD:
  assumes "valid_line line"
  shows "line_token line = Some (line_code line)" "length (line_code line) \<le> 2"
    "line_obs L line = Inr (line_record L line)"
  using assms valid_line_iff [of line L] by (auto simp: line_code_def)

lemma scan_end: "\<not> i < length states \<Longrightarrow> scan L token rest states i = Inr states"
  by (simp add: scan.simps)

lemma scan_hit:
  "i < length states \<Longrightarrow> states ! i = Some a \<Longrightarrow> code a = tok \<Longrightarrow>
   scan L (Some tok) rest states i =
     bind (read_fields L rest) (\<lambda>ob. Inr (states[i := Some (update_info a ob)]))"
  by (simp add: scan.simps)

lemma scan_miss:
  "i < length states \<Longrightarrow> states ! i = Some a \<Longrightarrow> code a \<noteq> tok \<Longrightarrow>
   scan L (Some tok) rest states i = scan L (Some tok) rest states (i + 1)"
  by (subst scan.simps) simp

lemma scan_new:
  "i < length states \<Longrightarrow> states ! i = None \<Longrightarrow>
   scan L (Some tok) rest states i =
     (if \<not> malloc_ok L i then Inl OutOfMemory
      else if length tok > 2 then Inl BufferOverflow
      else bind (read_fields L rest) (\<lambda>ob. Inr (states[i := Some (new_info tok ob)])))"
  by (simp add: scan.simps)

lemma scan_skip:
  assumes "\<forall>j. k \<le> j \<and> j < i \<longrightarrow> (\<exists>b. states ! j = Some b \<and> code b \<noteq> tok)"
    and "k \<le> i" and "i \<le> length states"
  shows "scan L (Some tok) rest states k = scan L (Some tok) rest states i"
  using assms
proof (induction "i - k" arbitrary: k)
  case 0
  then show ?case by simp
next
  case (Suc d)
  then have k: "k < i" by simp
  with Suc.prems obtain b where b: "states ! k = Some b" "code b \<noteq> tok"
    by blast
  have "scan L (Some tok) rest states k = scan L (Some tok) rest states (k + 1)"
    using k Suc.prems(3) b by (intro scan_miss) auto
  also have "\<dots> = scan L (Some tok) rest states i"
    using Suc.hyps(2) Suc.prems k by (intro Suc.hyps(1)) auto
  finally show ?case .
qed

lemma scan_result:
  "scan L token rest states i = Inr states' \<Longrightarrow>
   states' = states \<or>
   (\<exists>j tok ob. j < length states \<and> states ! j = None \<and> read_fields L rest = Inr ob \<and>
      states' = states[j := Some (new_info tok ob)]) \<or>
   (\<exists>j a ob. j < length states \<and> states ! j = Some a \<and> read_fields L rest = Inr ob \<and>
      states' = states[j := Some (update_info a ob)])"
proof (induction L token rest states i rule: scan.induct)
  case (1 L token rest states i)
  show ?case
  proof (cases "i < length states")
    case False
    with "1.prems" show ?thesis by (simp add: scan.simps)
  next
    case True
    show ?thesis
    proof (cases "states ! i")
      case None
      with True "1.prems" have "\<exists>tok ob. read_fields L rest = Inr ob \<and> states' = states[i := Some (new_info tok ob)]"
        by (subst (asm) scan.simps)
           (auto simp: bind_def split: if_splits option.splits sum.splits)
      with True None show ?thesis by blast
    next
      case (Some a)
      show ?thesis
      proof (cases token)
        case None
        with True Some "1.prems" show ?thesis
          by (subst (asm) scan.simps) simp
      next
        case tok: (Some tok)
        show ?thesis
        proof (cases "code a = tok")
          case True
          with \<open>i < length states\<close> Some tok "1.prems"
          have "\<exists>ob. read_fields L rest = Inr ob \<and> states' = states[i := Some (update_info a ob)]"
            by (subst (asm) scan.simps)
               (auto simp: bind_def split: sum.splits)
          with \<open>i < length states\<close> Some show ?thesis by blast
        next
          case False
          with \<open>i < length states\<close> Some tok "1.prems"
          have "scan L token rest states (i + 1) = Inr states'"
            by (subst (asm) scan.simps) simp
          with "1.IH" [OF \<open>i < length states\<close> Some tok False] show ?thesis
            by simp
        qed
      qed
    qed
  qed
qed

section \<open>Arrays filled from the front\<close>

lemma length_store_of: "length accs \<le> n \<Longrightarrow> length (store_of n accs) = n"
  by (simp add: store_of_def)

lemma store_of_nth_Some: "i < length accs \<Longrightarrow> store_of n accs ! i = Some (accs ! i)"
  by (simp add: store_of_def nth_append)

lemma store_of_nth_None: "length accs \<le> i \<Longrightarrow> i < n \<Longrightarrow> store_of n accs ! i = None"
  by (simp add: store_of_def nth_append)

lemma found_store_of: "found (store_of n accs) = accs"
  by (simp add: found_def store_of_def filter_map comp_def map_idI)

lemma store_of_update:
  "i < length accs \<Longrightarrow> (store_of n accs)[i := Some a] = store_of n (accs[i := a])"
  by (simp add: store_of_def list_update_append map_update)

lemma store_of_append:
  "length accs < n \<Longrightarrow> (store_of n accs)[length accs := Some a] = store_of n (accs @ [a])"
proof -
  assume "length accs < n"
  then obtain k where k: "n - length accs = Suc k"
    by (metis Suc_diff_Suc)
  then have "n - Suc (length accs) = k" by simp
  with k show ?thesis
    by (simp add: store_of_def list_update_append)
qed

lemma map_update_distinct:
  assumes "distinct (map code accs)" and "i < length accs"
  shows "map (\<lambda>a. if code a = code (accs ! i) then f a else a) accs = accs[i := f (accs ! i)]"
proof (rule nth_equalityI)
  show "length (map (\<lambda>a. if code a = code (accs ! i) then f a else a) accs) =
        length (accs[i := f (accs ! i)])" by simp
next
  fix j assume "j < length (map (\<lambda>a. if code a = code (accs ! i) then f a else a) accs)"
  then have j: "j < length accs" by simp
  have "code (accs ! j) = code (accs ! i) \<longleftrightarrow> j = i"
    using assms j by (metis distinct_conv_nth length_map nth_map)
  with j assms(2) show "map (\<lambda>a. if code a = code (accs ! i) then f a else a) accs ! j =
      accs[i := f (accs ! i)] ! j"
    by (auto simp: nth_list_update)
qed

lemma ingest_line_scan:
  "ingest_line L states line = scan L (line_token line) (snd (strtok (c_str line))) states 0"
  by (simp add: ingest_line_def line_token_def case_prod_beta)

lemma scan_store_of:
  assumes d: "distinct (map code accs)" and n: "length accs \<le> n"
    and m: "\<forall>i<n. malloc_ok L i" and t: "length tok \<le> 2"
    and r: "read_fields L rest = Inr ob"
  shows "scan L (Some tok) rest (store_of n accs) 0 = Inr (store_of n (step_accs n tok ob accs))"
proof (cases "tok \<in> set (map code accs)")
  case True
  then obtain i where i: "i < length accs" "code (accs ! i) = tok"
    by (auto simp: in_set_conv_nth)
  have others: "\<forall>j. 0 \<le> j \<and> j < i \<longrightarrow>
      (\<exists>b. store_of n accs ! j = Some b \<and> code b \<noteq> tok)"
  proof (intro allI impI)
    fix j assume "0 \<le> j \<and> j < i"
    then have j: "j < length accs" "j \<noteq> i" using i by auto
    then have "code (accs ! j) \<noteq> code (accs ! i)"
      using d i(1) by (metis distinct_conv_nth length_map nth_map)
    with j i show "\<exists>b. store_of n accs ! j = Some b \<and> code b \<noteq> tok"
      by (simp add: store_of_nth_Some)
  qed
  have len: "i < length (store_of n accs)"
    using i n by (simp add: length_store_of)
  have "scan L (Some tok) rest (store_of n accs) 0 = scan L (Some tok) rest (store_of n accs) i"
    using others len by (intro scan_skip) auto
  also have "\<dots> = Inr ((store_of n accs)[i := Some (update_info (accs ! i) ob)])"
    using len i r by (simp add: scan_hit store_of_nth_Some bind_def)
  also have "(store_of n accs)[i := Some (update_info (accs ! i) ob)] =
      store_of n (accs[i := update_info (accs ! i) ob])"
    using i by (simp add: store_of_update)
  also have "accs[i := update_info (accs ! i) ob] = step_accs n tok ob accs"
    using True map_update_distinct [OF d i(1), of "\<lambda>a. update_info a ob"] i(2)
    by (simp add: step_accs_def)
  finally show ?thesis .
next
  case False
  have others: "\<forall>j. 0 \<le> j \<and> j < length accs \<longrightarrow>
      (\<exists>b. store_of n accs ! j = Some b \<and> code b \<noteq> tok)"
    using False by (auto simp: store_of_nth_Some)
  have skip: "scan L (Some tok) rest (store_of n accs) 0 =
      scan L (Some tok) rest (store_of n accs) (length accs)"
    using others n by (intro scan_skip) (auto simp: length_store_of)
  show ?thesis
  proof (cases "length accs < n")
    case True
    then have "scan L (Some tok) rest (store_of n accs) (length accs) =
        Inr ((store_of n accs)[length accs := Some (new_info tok ob)])"
      using m t r n by (simp add: scan_new length_store_of store_of_nth_None bind_def)
    with skip True False show ?thesis
      by (simp add: store_of_append step_accs_def)
  next
    case full: False
    then have "scan L (Some tok) rest (store_of n accs) (length accs) = Inr (store_of n accs)"
      using n by (simp add: scan_end length_store_of)
    with skip full False show ?thesis
      by (simp add: step_accs_def)
  qed
qed

lemma code_update_info [simp]: "code (update_info a ob) = code a"
  by (simp add: update_info_def update_min_def update_max_def)

lemma code_new_info [simp]: "code (new_info tok ob) = tok"
  by (simp add: new_info_def)

lemma codes_step_accs:
  "map code (step_accs n tok ob accs) =
     (if tok \<in> set (map code accs) \<or> \<not> length accs < n then map code accs
      else map code accs @ [tok])"
  by (auto simp: step_accs_def comp_def intro!: map_cong)

lemma distinct_step_accs:
  "distinct (map code accs) \<Longrightarrow> distinct (map code (step_accs n tok ob accs))"
  by (simp add: codes_step_accs)

lemma length_step_accs:
  "length accs \<le> n \<Longrightarrow> length (step_accs n tok ob accs) \<le> n"
  by (simp add: step_accs_def)

section \<open>Valid lines on arrays filled from the front\<close>

lemma ingest_line_store_of:
  assumes "valid_line line" and "distinct (map code accs)" and "length accs \<le> n"
    and "\<forall>i<n. malloc_ok L i"
  shows "ingest_line L (store_of n accs) line =
     Inr (store_of n (step_accs n (line_code line) (line_record L line) accs))"
  using valid_lineD(1,2) [OF assms(1)] valid_lineD(3) [OF assms(1), of L] assms(2-)
  by (simp add: ingest_line_scan scan_store_of line_obs_def)

lemma analyze_file_store_of:
  assumes "\<forall>line\<in>set lines. valid_line line" and "distinct (map code accs)"
    and "length accs \<le> n" and "\<forall>i<n. malloc_ok L i"
  shows "analyze_file L lines (store_of n accs) = Inr (store_of n (run_accs L n lines accs))"
  using assms
proof (induction lines arbitrary: accs)
  case Nil
  then show ?case by simp
next
  case (Cons line lines)
  let ?accs = "step_accs n (line_code line) (line_record L line) accs"
  have "ingest_line L (store_of n accs) line = Inr (store_of n ?accs)"
    using Cons.prems by (intro ingest_line_store_of) auto
  moreover have "analyze_file L lines (store_of n ?accs) =
      Inr (store_of n (run_accs L n lines ?accs))"
    using Cons.prems by (intro Cons.IH) (auto simp: distinct_step_accs length_step_accs)
  ultimately show ?case by (simp add: bind_def)
qed

lemma store_of_Nil: "store_of n [] = replicate n None"
  by (simp add: store_of_def)

lemma distinct_run_accs:
  "distinct (map code accs) \<Longrightarrow> distinct (map code (run_accs L n lines accs))"
  by (induction lines arbitrary: accs) (simp_all add: distinct_step_accs)

lemma length_run_accs:
  "length accs \<le> n \<Longrightarrow> length (run_accs L n lines accs) \<le> n"
  by (induction lines arbitrary: accs) (simp_all add: length_step_accs)

lemma discover_prefix: "\<exists>ys. discover seen cs = seen @ ys"
proof (induction cs arbitrary: seen)
  case Nil
  then show ?case by simp
next
  case (Cons c cs)
  from Cons.IH [of seen] Cons.IH [of "seen @ [c]"] show ?case by auto
qed

lemma take_discover_full: "n \<le> length seen \<Longrightarrow> take n (discover seen cs) = take n seen"
  using discover_prefix [of seen cs] by auto

lemma codes_run_accs:
  "length accs \<le> n \<Longrightarrow>
   map code (run_accs L n lines accs) = take n (discover (map code accs) (map line_code lines))"
proof (induction lines arbitrary: accs)
  case Nil
  then show ?case by simp
next
  case (Cons line lines)
  let ?c = "line_code line"
  let ?accs = "step_accs n ?c (line_record L line) accs"
  have IH: "map code (run_accs L n lines ?accs) =
      take n (discover (map code ?accs) (map line_code lines))"
    using Cons.prems by (intro Cons.IH) (simp add: length_step_accs)
  show ?case
  proof (cases "?c \<in> set (map code accs)")
    case True
    with IH show ?thesis by (simp add: codes_step_accs)
  next
    case False
    show ?thesis
    proof (cases "length accs < n")
      case True
      with False IH show ?thesis by (simp add: codes_step_accs)
    next
      case full: False
      with Cons.prems have "n \<le> length (map code accs)" "n \<le> length (map code accs @ [?c])"
        by simp_all
      then have "take n (discover (map code accs @ [?c]) (map line_code lines)) =
          take n (discover (map code accs) (map line_code lines))"
        by (simp only: take_discover_full) simp
      with False full IH show ?thesis by (simp add: codes_step_accs)
    qed
  qed
qed

lemma set_discover: "set (discover seen cs) = set seen \<union> set cs"
  by (induction cs arbitrary: seen) auto

lemma distinct_discover: "distinct seen \<Longrightarrow> distinct (discover seen cs)"
  by (induction cs arbitrary: seen) auto

lemma update_info_fields:
  "num_records (update_info a ob) = num_records a + 1"
  "sum_humidity (update_info a ob) = sum_humidity a + obs_humidity ob"
  "sum_cloud_cover (update_info a ob) = sum_cloud_cover a + obs_cloud_cover ob"
  "sum_temperature (update_info a ob) = sum_temperature a + obs_temperature ob"
  "snow_records (update_info a ob) = snow_records a + word_of_int (obs_snow ob)"
  "lightning_strikes (update_info a ob) = lightning_strikes a + word_of_int (obs_lightning ob)"
  "max_temperature (update_info a ob) =
     (if obs_temperature ob > max_temperature a then obs_temperature ob else max_temperature a)"
  "max_timestamp (update_info a ob) =
     (if obs_temperature ob > max_temperature a then obs_timestamp ob else max_timestamp a)"
  "min_temperature (update_info a ob) =
     (if obs_temperature ob < min_temperature a then obs_temperature ob else min_temperature a)"
  "min_timestamp (update_info a ob) =
     (if obs_temperature ob < min_temperature a then obs_timestamp ob else min_timestamp a)"
  by (simp_all add: update_info_def update_min_def update_max_def)

lemmas eval_line =
  line_token_def line_obs_def c_str_def strtok_def is_delim_def read_fields_def conv_def
  bind_def Let_def decimal_libc_def decimal_int_def decimal_real_def signed_def is_digit_def
  round_float_50 round_float_68 round_float_zero_kelvin

lemma tn_first_token: "line_token tn_first = Some ''TN''"
  by (simp add: tn_first_def eval_line)

lemma tn_first_obs:
  "line_obs (decimal_libc files) tn_first =
     Inr \<lparr> obs_timestamp = 1420000000, obs_humidity = Fin 50, obs_snow = 0,
           obs_cloud_cover = Fin 40, obs_lightning = 1, obs_temperature = Fin 50 \<rparr>"
  by (simp add: tn_first_def eval_line)

lemma tn_second_token: "line_token tn_second = Some ''TN''"
  by (simp add: tn_second_def eval_line)

lemma tn_second_obs:
  "line_obs (decimal_libc files) tn_second =
     Inr \<lparr> obs_timestamp = 1420003600, obs_humidity = Fin 48, obs_snow = 1,
           obs_cloud_cover = Fin 60, obs_lightning = 0, obs_temperature = Fin 68 \<rparr>"
  by (simp add: tn_second_def eval_line)

text \<open>
  \<^bold>\<open>C1\<close> (lines 204-226). Let slot \<open>i\<close> hold the struct \<open>a\<close> for the line's region
  code, no earlier slot being null or holding that code (so the loop stops at \<open>i\<close>; arrays
  filled by \<open>analyze_file\<close> hold each code once), and let the line decode into the
  observation \<open>ob\<close>. Then the line replaces \<open>a\<close> by \<open>update_info a ob\<close> and touches no
  other slot; the code is kept, \<open>num_records\<close> grows by 1, humidity, cloud cover and
  the converted temperature are added to their sums, the snow and lightning fields (1
  when the flag is set, 0 otherwise) are added to their counters, and the maximum
  (minimum) and its timestamp are replaced together exactly when the new temperature is
  strictly greater (less); on a tie both keep their earlier values.
\<close>

theorem fold_into_existing:
  assumes "i < length states" and "states ! i = Some a"
    and "\<forall>j<i. \<exists>b. states ! j = Some b \<and> code b \<noteq> code a"
    and "line_token line = Some (code a)" and "line_obs L line = Inr ob"
  shows "ingest_line L states line = Inr (states[i := Some (update_info a ob)]) \<and>
    code (update_info a ob) = code a \<and>
    num_records (update_info a ob) = num_records a + 1 \<and>
    sum_humidity (update_info a ob) = sum_humidity a + obs_humidity ob \<and>
    sum_cloud_cover (update_info a ob) = sum_cloud_cover a + obs_cloud_cover ob \<and>
    sum_temperature (update_info a ob) = sum_temperature a + obs_temperature ob \<and>
    snow_records (update_info a ob) = snow_records a + word_of_int (obs_snow ob) \<and>
    lightning_strikes (update_info a ob) =
      lightning_strikes a + word_of_int (obs_lightning ob) \<and>
    (max_temperature (update_info a ob), max_timestamp (update_info a ob)) =
      (if obs_temperature ob > max_temperature a
       then (obs_temperature ob, obs_timestamp ob)
       else (max_temperature a, max_timestamp a)) \<and>
    (min_temperature (update_info a ob), min_timestamp (update_info a ob)) =
      (if obs_temperature ob < min_temperature a
       then (obs_temperature ob, obs_timestamp ob)
       else (min_temperature a, min_timestamp a))"
proof -
  have "scan L (Some (code a)) (snd (strtok (c_str line))) states 0 =
      scan L (Some (code a)) (snd (strtok (c_str line))) states i"
    using assms(1,3) by (intro scan_skip) auto
  also have "\<dots> = Inr (states[i := Some (update_info a ob)])"
    using assms(1,2,5) by (simp add: scan_hit line_obs_def bind_def)
  finally have "ingest_line L states line = Inr (states[i := Some (update_info a ob)])"
    using assms(4) by (simp add: ingest_line_scan)
  then show ?thesis
    by (simp add: update_info_fields)
qed

theorem fold_into_existing_witness:
  "ingest_line (decimal_libc []) [Some tn_acc, None] tn_second =
     Inr [Some \<lparr> code = ''TN'', num_records = 2, sum_temperature = Fin 118,
                 sum_humidity = Fin 98, snow_records = 1, sum_cloud_cover = Fin 100,
                 lightning_strikes = 1, max_temperature = Fin 68, min_temperature = Fin 50,
                 max_timestamp = 1420003600, min_timestamp = 1420000000 \<rparr>, None]"
proof -
  have "code tn_acc = ''TN''"
    by (simp add: tn_acc_def new_info_def)
  then have "line_token tn_second = Some (code tn_acc)"
    by (simp add: tn_second_token)
  from fold_into_existing [of 0 "[Some tn_acc, None]" tn_acc tn_second, OF _ _ _ this tn_second_obs [of "[]"]]
  show ?thesis
    by (simp add: tn_acc_def new_info_def update_info_def update_max_def update_min_def)
qed

lemma valid_lineI:
  assumes "line_token line = Some tok" and "length tok \<le> 2" and "line_obs L line = Inr ob"
  shows "valid_line line" and "line_code line = tok" and "line_record L line = ob"
proof -
  from assms(1) obtain ts where ts: "tokens (c_str line) = tok # ts"
    by (cases "tokens (c_str line)") (auto simp: line_token_def fst_strtok)
  with assms(3) have 8: "8 \<le> length ts" and ob: "ob = fields_obs L ts"
    by (auto simp: line_obs_def read_fields_tokens tokens_snd_strtok split: if_splits)
  from ts 8 assms(2) show "valid_line line" by (simp add: valid_line_def)
  from assms(1) show "line_code line = tok" by (simp add: line_code_def)
  from ts ob show "line_record L line = ob" by (simp add: line_record_def)
qed

lemma new_info_fields:
  "num_records (new_info tok ob) = 1"
  "sum_humidity (new_info tok ob) = obs_humidity ob"
  "sum_cloud_cover (new_info tok ob) = obs_cloud_cover ob"
  "sum_temperature (new_info tok ob) = obs_temperature ob"
  "snow_records (new_info tok ob) = word_of_int (obs_snow ob)"
  "lightning_strikes (new_info tok ob) = word_of_int (obs_lightning ob)"
  "max_temperature (new_info tok ob) = obs_temperature ob"
  "min_temperature (new_info tok ob) = obs_temperature ob"
  "max_timestamp (new_info tok ob) = obs_timestamp ob"
  "min_timestamp (new_info tok ob) = obs_timestamp ob"
  by (simp_all add: new_info_def)

lemma ingest_line_full:
  assumes "\<forall>s\<in>set states. \<exists>b. s = Some b \<and> code b \<noteq> tok" and "line_token line = Some tok"
  shows "ingest_line L states line = Inr states"
proof -
  have "scan L (Some tok) (snd (strtok (c_str line))) states 0 =
      scan L (Some tok) (snd (strtok (c_str line))) states (length states)"
    using assms(1) by (intro scan_skip) auto
  then show ?thesis
    using assms(2) by (simp add: ingest_line_scan scan_end)
qed

lemma dc_line_token: "line_token dc_line = Some ''DC''"
  by (simp add: dc_line_def eval_line)

lemma dc_line_obs: "line_obs (decimal_libc files) dc_line = Inr mild"
  by (simp add: dc_line_def mild_def eval_line)

lemma length_full_store: "length full_store = NUM_STATES"
  by (simp add: full_store_def us_states_def NUM_STATES_def)

lemma full_store_no_dc: "\<forall>s\<in>set full_store. \<exists>b. s = Some b \<and> code b \<noteq> ''DC''"
  by (simp add: full_store_def us_states_def new_info_def)

text \<open>
  \<^bold>\<open>C10\<close> (lines 71, 176-227). When every slot of the array holds a struct and none of
  them has the code of the line, the loop runs through all slots and ends: the line
  leaves the array as it was and raises no fault (the only message of \<open>analyze_file\<close>
  belongs to the fault \<open>OutOfMemory\<close>), and the file is processed further from the next
  line. The rest of the line is never read.
\<close>

theorem full_store_drops:
  assumes "\<forall>s\<in>set states. \<exists>b. s = Some b \<and> code b \<noteq> tok"
    and "line_token line = Some tok"
  shows "ingest_line L states line = Inr states \<and>
    analyze_file L (line # lines) states = analyze_file L lines states"
  using ingest_line_full [OF assms, of L] by (simp add: bind_def)

theorem full_store_drops_witness:
  "length full_store = NUM_STATES \<and>
   ingest_line (decimal_libc []) full_store dc_line = Inr full_store \<and>
   analyze_file (decimal_libc []) [dc_line] full_store = Inr full_store"
  using full_store_drops [OF full_store_no_dc dc_line_token, of "decimal_libc []" "[]"]
  by (simp add: length_full_store bind_def)

text \<open>
  \<^bold>\<open>C2\<close> as stated fails when the array is full: with fifty structs for other codes, a
  well-formed line with a new code creates no struct.
\<close>

theorem create_when_full_counterexample:
  "valid_line dc_line \<and> line_code dc_line = ''DC'' \<and>
   length full_store = NUM_STATES \<and>
   ''DC'' \<notin> set (map code (found full_store)) \<and>
   ingest_line (decimal_libc []) full_store dc_line = Inr full_store"
proof -
  have "valid_line dc_line" "line_code dc_line = ''DC''"
    using valid_lineI [OF dc_line_token _ dc_line_obs [of "[]"]] by simp_all
  moreover have "''DC'' \<notin> set (map code (found full_store))"
    by (simp add: found_def full_store_def us_states_def new_info_def)
  moreover have "ingest_line (decimal_libc []) full_store dc_line = Inr full_store"
    using full_store_no_dc dc_line_token by (rule ingest_line_full)
  ultimately show ?thesis by (simp add: length_full_store)
qed

text \<open>
  \<^bold>\<open>C2\<close>, amended (lines 177-201). Let slot \<open>i\<close> be the first null slot, no earlier slot
  holding the line's code, let the allocation for it succeed, and let the line decode
  into the observation \<open>ob\<close> with a code of at most two characters. Then the line stores
  \<open>new_info tok ob\<close> in slot \<open>i\<close> and touches no other slot: \<open>num_records\<close> is 1, each sum
  is the value of its field, the counters are the snow and lightning fields, maximum and
  minimum are both the converted temperature, and both timestamps are the observation
  time.
\<close>

theorem create_new:
  assumes "i < length states" and "states ! i = None"
    and "\<forall>j<i. \<exists>b. states ! j = Some b \<and> code b \<noteq> tok"
    and "malloc_ok L i"
    and "line_token line = Some tok" and "length tok \<le> 2" and "line_obs L line = Inr ob"
  shows "ingest_line L states line = Inr (states[i := Some (new_info tok ob)]) \<and>
    code (new_info tok ob) = tok \<and>
    num_records (new_info tok ob) = 1 \<and>
    sum_humidity (new_info tok ob) = obs_humidity ob \<and>
    sum_cloud_cover (new_info tok ob) = obs_cloud_cover ob \<and>
    sum_temperature (new_info tok ob) = obs_temperature ob \<and>
    snow_records (new_info tok ob) = word_of_int (obs_snow ob) \<and>
    lightning_strikes (new_info tok ob) = word_of_int (obs_lightning ob) \<and>
    max_temperature (new_info tok ob) = obs_temperature ob \<and>
    min_temperature (new_info tok ob) = obs_temperature ob \<and>
    max_timestamp (new_info tok ob) = obs_timestamp ob \<and>
    min_timestamp (new_info tok ob) = obs_timestamp ob"
proof -
  have "scan L (Some tok) (snd (strtok (c_str line))) states 0 =
      scan L (Some tok) (snd (strtok (c_str line))) states i"
    using assms(1,3) by (intro scan_skip) auto
  also have "\<dots> = Inr (states[i := Some (new_info tok ob)])"
    using assms(1,2,4,6,7) by (simp add: scan_new line_obs_def bind_def)
  finally have "ingest_line L states line = Inr (states[i := Some (new_info tok ob)])"
    using assms(5) by (simp add: ingest_line_scan)
  then show ?thesis
    by (simp add: new_info_fields)
qed

theorem create_new_witness:
  "ingest_line (decimal_libc []) [Some tn_acc, None, None] dc_line =
     Inr [Some tn_acc,
          Some \<lparr> code = ''DC'', num_records = 1, sum_temperature = Fin 50,
                 sum_humidity = Fin 50, snow_records = 0, sum_cloud_cover = Fin 40,
                 lightning_strikes = 1, max_temperature = Fin 50, min_temperature = Fin 50,
                 max_timestamp = 1420000000, min_timestamp = 1420000000 \<rparr>,
          None]"
proof -
  have "\<forall>j<1. \<exists>b. [Some tn_acc, None, None] ! j = Some b \<and> code b \<noteq> ''DC''"
    by (simp add: tn_acc_def new_info_def)
  moreover have "malloc_ok (decimal_libc []) 1"
    by (simp add: decimal_libc_def)
  ultimately show ?thesis
    using create_new [of 1 "[Some tn_acc, None, None]" "''DC''" "decimal_libc []" dc_line mild,
        OF _ _ _ _ dc_line_token _ dc_line_obs [of "[]"]]
    by (simp add: new_info_def mild_def)
qed

section \<open>The order of the extrema\<close>

lemma new_info_ordered:
  "obs_temperature ob \<noteq> NaN \<Longrightarrow>
   min_temperature (new_info tok ob) \<le> max_temperature (new_info tok ob)"
  by (simp add: new_info_def fp_le_refl)

lemma update_info_ordered:
  assumes "min_temperature a \<le> max_temperature a" and "obs_temperature ob \<noteq> NaN"
  shows "min_temperature (update_info a ob) \<le> max_temperature (update_info a ob)"
  using assms
  by (auto simp: update_info_fields fp_le_refl intro: fp_less_le_trans fp_le_less_trans)

lemma extrema_ordered_update:
  assumes "extrema_ordered states" and "min_temperature a \<le> max_temperature a"
  shows "extrema_ordered (states[j := Some a])"
  using assms unfolding extrema_ordered_def list_all_iff
  by (auto dest!: subsetD [OF set_update_subset_insert])

lemma extrema_ordered_nth:
  "extrema_ordered states \<Longrightarrow> j < length states \<Longrightarrow> states ! j = Some a \<Longrightarrow>
   min_temperature a \<le> max_temperature a"
  unfolding extrema_ordered_def list_all_iff
  by (metis nth_mem option.simps(5))

lemma ingest_line_ordered:
  assumes "extrema_ordered states" and "numeric_temperature L line"
    and "ingest_line L states line = Inr states'"
  shows "extrema_ordered states'"
proof -
  let ?rest = "snd (strtok (c_str line))"
  have num: "obs_temperature ob \<noteq> NaN" if "read_fields L ?rest = Inr ob" for ob
    using assms(2) that by (simp add: numeric_temperature_def line_obs_def)
  from scan_result [OF assms(3) [unfolded ingest_line_scan]] consider
    (same) "states' = states"
    | (new) j tok ob where "read_fields L ?rest = Inr ob"
        "states' = states[j := Some (new_info tok ob)]"
    | (upd) j a ob where "j < length states" "states ! j = Some a"
        "read_fields L ?rest = Inr ob" "states' = states[j := Some (update_info a ob)]"
    by blast
  then show ?thesis
  proof cases
    case same
    with assms(1) show ?thesis by simp
  next
    case new
    with assms(1) num show ?thesis
      by (auto intro: extrema_ordered_update new_info_ordered)
  next
    case upd
    from extrema_ordered_nth [OF assms(1) upd(1,2)] num [OF upd(3)]
    have "min_temperature (update_info a ob) \<le> max_temperature (update_info a ob)"
      by (rule update_info_ordered)
    with assms(1) upd(4) show ?thesis
      by (auto intro: extrema_ordered_update)
  qed
qed

lemma analyze_file_ordered:
  "extrema_ordered states \<Longrightarrow> \<forall>line\<in>set lines. numeric_temperature L line \<Longrightarrow>
   analyze_file L lines states = Inr states' \<Longrightarrow> extrema_ordered states'"
proof (induction lines arbitrary: states)
  case Nil
  then show ?case by simp
next
  case (Cons line lines)
  from Cons.prems(3) obtain mid where mid: "ingest_line L states line = Inr mid"
    and rest: "analyze_file L lines mid = Inr states'"
    by (auto simp: bind_def split: sum.splits)
  from Cons.prems(1,2) mid have "extrema_ordered mid"
    by (intro ingest_line_ordered [of states L line mid]) auto
  then show ?case using Cons.prems(2) rest by (intro Cons.IH) auto
qed

lemma tn_second_ingest:
  "ingest_line (decimal_libc []) [Some tn_acc, None] tn_second = Inr [Some tn_both, None]"
  using tn_second_obs [of "[]"]
  by (simp add: ingest_line_scan tn_second_token scan.simps [of _ _ _ _ 0] line_obs_def
      bind_def tn_acc_def tn_both_def new_info_def update_info_def update_max_def
      update_min_def)

lemma nan_line_token: "line_token nan_line = Some ''TN''"
  by (simp add: nan_line_def eval_line)

lemma nan_line_obs: "line_obs (decimal_libc files) nan_line = Inr nan_obs"
  by (simp add: nan_line_def nan_obs_def eval_line)

text \<open>
  \<^bold>\<open>C4\<close> as stated fails for a line whose temperature text is \<^verbatim>\<open>nan\<close>: the line is
  valid, its struct has one record, maximum and minimum are both NaN (lines 196-199),
  and no comparison with NaN holds.
\<close>

theorem nan_extrema_counterexample:
  "valid_line nan_line \<and>
   ingest_line (decimal_libc []) [None, None] nan_line =
     Inr [Some (new_info ''TN'' nan_obs), None] \<and>
   num_records (new_info ''TN'' nan_obs) = 1 \<and>
   max_temperature (new_info ''TN'' nan_obs) = NaN \<and>
   min_temperature (new_info ''TN'' nan_obs) = NaN \<and>
   \<not> min_temperature (new_info ''TN'' nan_obs) \<le> max_temperature (new_info ''TN'' nan_obs)"
proof -
  have "valid_line nan_line"
    using valid_lineI [OF nan_line_token _ nan_line_obs [of "[]"]] by simp
  moreover have "ingest_line (decimal_libc []) [None, None] nan_line =
      Inr [Some (new_info ''TN'' nan_obs), None]"
    using nan_line_obs [of "[]"]
    by (simp add: ingest_line_scan nan_line_token scan.simps [of _ _ _ _ 0]
        decimal_libc_def line_obs_def bind_def)
  ultimately show ?thesis
    by (simp add: new_info_def nan_obs_def)
qed

text \<open>
  \<^bold>\<open>C4\<close>, amended (lines 197-199, 216-223). In the empty array, and then after every
  line and every file that is processed without a fault and whose temperatures are not
  NaN, every struct of the array, and so every struct whose record count is at least 1,
  has a minimum temperature that is at most its maximum temperature.
\<close>

theorem extrema_ordered_invariant:
  "extrema_ordered (replicate n None) \<and>
   (extrema_ordered states \<longrightarrow> numeric_temperature L line \<longrightarrow>
      ingest_line L states line = Inr states' \<longrightarrow> extrema_ordered states') \<and>
   (extrema_ordered states \<longrightarrow> (\<forall>line\<in>set lines. numeric_temperature L line) \<longrightarrow>
      analyze_file L lines states = Inr states'' \<longrightarrow> extrema_ordered states'') \<and>
   (extrema_ordered states \<longrightarrow>
      (\<forall>a. Some a \<in> set states \<longrightarrow> 1 \<le> num_records a \<longrightarrow>
         min_temperature a \<le> max_temperature a))"
proof (intro conjI impI allI)
  show "extrema_ordered (replicate n None)"
    by (simp add: extrema_ordered_def list_all_iff)
next
  assume "extrema_ordered states" and "numeric_temperature L line"
    and "ingest_line L states line = Inr states'"
  then show "extrema_ordered states'" by (rule ingest_line_ordered)
next
  assume "extrema_ordered states" and "\<forall>line\<in>set lines. numeric_temperature L line"
    and "analyze_file L lines states = Inr states''"
  then show "extrema_ordered states''" by (rule analyze_file_ordered)
next
  fix a
  assume "extrema_ordered states" and "Some a \<in> set states"
  then show "min_temperature a \<le> max_temperature a"
    by (auto simp: extrema_ordered_def list_all_iff)
qed

theorem extrema_ordered_invariant_witness:
  "extrema_ordered [Some tn_acc, None] \<and>
   numeric_temperature (decimal_libc []) tn_second \<and>
   ingest_line (decimal_libc []) [Some tn_acc, None] tn_second = Inr [Some tn_both, None] \<and>
   1 \<le> num_records tn_both \<and>
   analyze_file (decimal_libc []) [tn_second] [Some tn_acc, None] = Inr [Some tn_both, None] \<and>
   extrema_ordered [Some tn_both, None] \<and>
   min_temperature tn_both \<le> max_temperature tn_both"
proof -
  have start: "extrema_ordered [Some tn_acc, None]"
    by (simp add: extrema_ordered_def tn_acc_def new_info_def)
  have num: "numeric_temperature (decimal_libc []) tn_second"
    by (simp add: numeric_temperature_def tn_second_obs)
  have whole: "analyze_file (decimal_libc []) [tn_second] [Some tn_acc, None] =
      Inr [Some tn_both, None]"
    by (simp add: tn_second_ingest bind_def)
  from extrema_ordered_invariant
    [of 0 "[Some tn_acc, None]" "decimal_libc []" _ _ "[tn_second]" "[Some tn_both, None]"]
    start num whole
  have "extrema_ordered [Some tn_both, None]"
    by simp
  note inst = extrema_ordered_invariant
    [of 0 "[Some tn_acc, None]" "decimal_libc []" tn_second "[Some tn_both, None]"]
  from inst have after: "extrema_ordered [Some tn_both, None]"
    using start num tn_second_ingest by blast
  have count: "1 \<le> num_records tn_both"
    by (simp add: tn_both_def)
  from extrema_ordered_invariant [of 0 "[Some tn_both, None]"] after count
  have "min_temperature tn_both \<le> max_temperature tn_both"
    by simp
  with start num after count whole show ?thesis
    by (simp add: tn_second_ingest)
qed

section \<open>The temperature\<close>













section \<open>Timestamps\<close>

lemma late_line_token: "line_token late_line = Some ''TN''"
  by (simp add: late_line_def eval_line)

lemma late_line_millis: "line_millis late_line = Some ''1420000000999''"
  by (simp add: late_line_def line_millis_def eval_line)

lemma late_line_obs: "line_obs (decimal_libc files) late_line = Inr mild"
  by (simp add: late_line_def mild_def eval_line)

lemma obs_timestamp_millis:
  assumes "line_millis line = Some ms" and "line_obs L line = Inr ob"
  shows "obs_timestamp ob = atoll L ms sdiv 1000"
  using assms
  by (auto simp: line_millis_def line_obs_def read_fields_def Let_def case_prod_beta
      conv_def bind_def split: sum.splits option.splits)

text \<open>
  \<^bold>\<open>C6\<close> (lines 187, 206). The observation time of a line is the value that \<^verbatim>\<open>atoll\<close>
  gives for its second token, divided by 1000 with the remainder dropped (C's division:
  the quotient is rounded towards zero). A new struct takes this time for both of its
  timestamps, and an update either keeps a timestamp or replaces it by this time.
\<close>

theorem timestamp_seconds:
  assumes "line_millis line = Some ms" and "line_obs L line = Inr ob"
  shows "obs_timestamp ob =
      (if 0 \<le> atoll L ms then atoll L ms div 1000 else - ((- atoll L ms) div 1000)) \<and>
    max_timestamp (new_info tok ob) = obs_timestamp ob \<and>
    min_timestamp (new_info tok ob) = obs_timestamp ob \<and>
    max_timestamp (update_info a ob) =
      (if obs_temperature ob > max_temperature a then obs_timestamp ob else max_timestamp a) \<and>
    min_timestamp (update_info a ob) =
      (if obs_temperature ob < min_temperature a then obs_timestamp ob else min_timestamp a)"
proof -
  have "obs_timestamp ob = atoll L ms sdiv 1000"
    using assms by (rule obs_timestamp_millis)
  also have "\<dots> = (if 0 \<le> atoll L ms then atoll L ms div 1000 else - ((- atoll L ms) div 1000))"
    by (simp add: signed_divide_int_def sgn_if)
  finally show ?thesis
    by (simp add: new_info_fields update_info_fields)
qed

theorem timestamp_seconds_witness:
  "decimal_int ''1420000000999'' = 1420000000999 \<and>
   line_obs (decimal_libc []) late_line = Inr mild \<and>
   obs_timestamp mild = 1420000000 \<and>
   max_timestamp (new_info ''TN'' mild) = 1420000000"
proof -
  have ms: "atoll (decimal_libc []) ''1420000000999'' = 1420000000999"
    by (simp add: decimal_libc_def decimal_int_def signed_def is_digit_def)
  from timestamp_seconds [OF late_line_millis late_line_obs [of "[]"], of "''TN''"] ms
  have "obs_timestamp mild = 1420000000"
    and "max_timestamp (new_info ''TN'' mild) = 1420000000"
    by simp_all
  moreover have "decimal_int ''1420000000999'' = 1420000000999"
    using ms by (simp add: decimal_libc_def)
  ultimately show ?thesis
    using late_line_obs by simp
qed

section \<open>Several files, one array\<close>

lemma analyze_file_append:
  "analyze_file L (xs @ ys) states = bind (analyze_file L xs states) (analyze_file L ys)"
  by (induction xs arbitrary: states) (auto simp: bind_def split: sum.splits)

lemma snd_read_files:
  "snd (read_files L paths states) = analyze_file L (all_lines L paths) states"
proof (induction paths arbitrary: states)
  case Nil
  then show ?case by simp
next
  case (Cons path paths)
  show ?case
  proof (cases "fopen L path")
    case None
    with Cons.IH [of states] show ?thesis
      by (simp add: case_prod_beta)
  next
    case (Some lines)
    show ?thesis
    proof (cases "analyze_file L lines states")
      case (Inl e)
      with Some show ?thesis
        by (simp add: analyze_file_append bind_def)
    next
      case (Inr mid)
      with Some Cons.IH [of mid] show ?thesis
        by (simp add: analyze_file_append bind_def case_prod_beta)
    qed
  qed
qed

lemma analyze_file_fresh:
  assumes "\<forall>line\<in>set lines. valid_line line" and "\<forall>i<n. malloc_ok L i"
  shows "analyze_file L lines (replicate n None) = Inr (store_of n (run_accs L n lines []))"
  using analyze_file_store_of [of lines "[]" n L] assms by (simp add: store_of_Nil)

section \<open>Record counts\<close>

lemma run_accs_full:
  assumes "length accs = n"
  shows "map code (run_accs L n lines accs) = map code accs"
  using codes_run_accs [of accs n L lines] assms
  by (simp add: take_discover_full)

lemma num_records_step_accs:
  assumes "distinct (map code accs)" and "a' \<in> set (step_accs n tok ob accs)"
  shows "(\<exists>a\<in>set accs. code a = code a' \<and>
            num_records a' = num_records a + (if code a' = tok then 1 else 0)) \<or>
         (code a' = tok \<and> tok \<notin> set (map code accs) \<and> length accs < n \<and> num_records a' = 1)"
  using assms(2)
  by (auto simp: step_accs_def update_info_fields new_info_fields split: if_splits)

lemma num_records_run_accs:
  assumes "distinct (map code accs)" and "length accs \<le> n"
    and "a' \<in> set (run_accs L n lines accs)"
  shows "(\<exists>a\<in>set accs. code a = code a' \<and>
            num_records a' =
              num_records a + of_nat (count_list (map line_code lines) (code a'))) \<or>
         (code a' \<notin> set (map code accs) \<and>
            num_records a' = of_nat (count_list (map line_code lines) (code a')))"
  using assms
proof (induction lines arbitrary: accs)
  case Nil
  then show ?case by auto
next
  case (Cons line lines)
  let ?tok = "line_code line"
  let ?accs = "step_accs n ?tok (line_record L line) accs"
  let ?k = "count_list (map line_code lines) (code a')"
  have d1: "distinct (map code ?accs)" and l1: "length ?accs \<le> n"
    using Cons.prems by (simp_all add: distinct_step_accs length_step_accs)
  have a': "a' \<in> set (run_accs L n lines ?accs)"
    using Cons.prems(3) by simp
  have cnt: "(of_nat (count_list (map line_code (line # lines)) (code a')) :: 64 word) =
      (if ?tok = code a' then 1 else 0) + of_nat ?k"
    by simp
  from Cons.IH [OF d1 l1 a'] consider
    (old) a1 where "a1 \<in> set ?accs" "code a1 = code a'" "num_records a' = num_records a1 + of_nat ?k"
    | (fresh) "code a' \<notin> set (map code ?accs)" "num_records a' = of_nat ?k"
    by blast
  then show ?case
  proof cases
    case old
    from num_records_step_accs [OF Cons.prems(1) old(1)] consider
      (upd) a where "a \<in> set accs" "code a = code a1"
        "num_records a1 = num_records a + (if code a1 = ?tok then 1 else 0)"
      | (new) "code a1 = ?tok" "?tok \<notin> set (map code accs)" "num_records a1 = 1"
      by blast
    then show ?thesis
    proof cases
      case upd
      have "num_records a' = num_records a + (if ?tok = code a' then 1 else 0) + of_nat ?k"
        using upd(3) old(2,3) by (simp add: eq_commute)
      also have "\<dots> = num_records a + of_nat (count_list (map line_code (line # lines)) (code a'))"
        by (simp add: cnt)
      finally show ?thesis using upd(1,2) old(2) by auto
    next
      case new
      have "num_records a' = (if ?tok = code a' then 1 else 0) + of_nat ?k"
        using new(1,3) old(2,3) by simp
      also have "\<dots> = of_nat (count_list (map line_code (line # lines)) (code a'))"
        by (simp add: cnt)
      finally show ?thesis using new(1,2) old(2) by auto
    qed
  next
    case fresh
    have sub: "set (map code accs) \<subseteq> set (map code ?accs)"
      by (auto simp: codes_step_accs)
    with fresh(1) have notin: "code a' \<notin> set (map code accs)" by blast
    have "?tok \<noteq> code a'"
    proof
      assume eq: "?tok = code a'"
      with fresh(1) notin have full: "\<not> length accs < n" and same: "?accs = accs"
        by (auto simp: codes_step_accs step_accs_def split: if_splits)
      with Cons.prems(2) have "length accs = n" by simp
      then have "map code (run_accs L n lines accs) = map code accs"
        by (rule run_accs_full)
      moreover from a' same have "code a' \<in> set (map code (run_accs L n lines accs))"
        by auto
      ultimately show False using notin by simp
    qed
    with fresh(2) have "num_records a' = of_nat (count_list (map line_code (line # lines)) (code a'))"
      by (simp add: cnt)
    with notin show ?thesis by blast
  qed
qed

lemma num_records_fresh:
  assumes "a \<in> set (run_accs L n lines [])"
  shows "num_records a = of_nat (count_list (map line_code lines) (code a))"
  using num_records_run_accs [of "[]" n a L lines] assms by simp

lemma sum_count_list_distinct:
  "distinct cs \<Longrightarrow> (\<Sum>c\<leftarrow>cs. count_list xs c) = length (filter (\<lambda>x. x \<in> set cs) xs)"
proof (induction xs)
  case Nil
  then show ?case by simp
next
  case (Cons x xs)
  have "(\<Sum>c\<leftarrow>cs. count_list (x # xs) c) =
      (\<Sum>c\<leftarrow>cs. count_list xs c) + (\<Sum>c\<leftarrow>cs. if x = c then 1 else 0)"
    by (induction cs) auto
  moreover have "(\<Sum>c\<leftarrow>cs. if x = c then 1 else 0) = (if x \<in> set cs then 1 else (0::nat))"
    using Cons.prems by (induction cs) auto
  ultimately show ?case using Cons by simp
qed

lemma count_list_le_length: "count_list xs c \<le> length xs"
  by (induction xs) auto

lemma length_discover: "length (discover [] cs) = card (set cs)"
  using distinct_card [of "discover [] cs"] distinct_discover [of "[]" cs]
  by (simp add: set_discover)

lemma mild_line_eval:
  assumes "plain_code c"
  shows "line_token (mild_line c) = Some c"
    and "line_obs (decimal_libc files) (mild_line c) = Inr mild"
proof -
  from assms obtain x y where c: "c = [x, y]"
    by (auto simp: plain_code_def length_Suc_conv numeral_2_eq_2)
  with assms have xy: "x \<noteq> CHR 0x09" "x \<noteq> CHR 0x0A" "x \<noteq> CHR 0x00"
      "y \<noteq> CHR 0x09" "y \<noteq> CHR 0x0A" "y \<noteq> CHR 0x00"
    by (auto simp: plain_code_def is_delim_def)
  show "line_token (mild_line c) = Some c"
    using xy by (simp add: c mild_line_def eval_line)
  show "line_obs (decimal_libc files) (mild_line c) = Inr mild"
    using xy by (simp add: c mild_line_def mild_def eval_line)
qed

lemma mild_line_valid:
  assumes "plain_code c"
  shows "valid_line (mild_line c)" and "line_code (mild_line c) = c"
proof -
  from assms have "length c \<le> 2" by (simp add: plain_code_def)
  from valid_lineI [OF mild_line_eval(1) [OF assms] this mild_line_eval(2) [OF assms, of "[]"]]
  show "valid_line (mild_line c)" and "line_code (mild_line c) = c" by simp_all
qed

lemma us_states_plain: "list_all plain_code us_states"
  by (simp add: us_states_def plain_code_def is_delim_def)

lemma dc_line_valid: "valid_line dc_line" "line_code dc_line = ''DC''"
  using valid_lineI [OF dc_line_token _ dc_line_obs [of "[]"]] by simp_all

lemma crowded_valid: "\<forall>line\<in>set crowded. valid_line line"
  using us_states_plain
  by (auto simp: crowded_def list_all_iff dc_line_valid mild_line_valid)

lemma crowded_codes: "map line_code crowded = us_states @ [''DC'']"
  using us_states_plain
  by (simp add: crowded_def dc_line_valid list_all_iff mild_line_valid map_idI comp_def)

lemma sum_records_fresh:
  assumes "\<forall>line\<in>set lines. valid_line line" and "\<forall>i<n. malloc_ok L i"
    and "length lines < 2 ^ 64"
  shows "(\<Sum>a\<leftarrow>run_accs L n lines []. unat (num_records a)) =
     length (filter (\<lambda>c. c \<in> set (take n (discover [] (map line_code lines))))
       (map line_code lines))"
proof -
  let ?accs = "run_accs L n lines []"
  let ?codes = "map line_code lines"
  have each: "unat (num_records a) = count_list ?codes (code a)" if "a \<in> set ?accs" for a
  proof -
    have "count_list ?codes (code a) \<le> length ?codes"
      by (rule count_list_le_length)
    with assms(3) have "count_list ?codes (code a) < 2 ^ LENGTH(64)" by simp
    with num_records_fresh [OF that] show ?thesis
      by (simp add: of_nat_inverse)
  qed
  have "(\<Sum>a\<leftarrow>?accs. unat (num_records a)) = (\<Sum>a\<leftarrow>?accs. count_list ?codes (code a))"
    using each by (intro arg_cong [where f = sum_list] map_cong) auto
  also have "\<dots> = (\<Sum>c\<leftarrow>map code ?accs. count_list ?codes c)"
    by (simp add: comp_def)
  also have "\<dots> = length (filter (\<lambda>c. c \<in> set (map code ?accs)) ?codes)"
    by (intro sum_count_list_distinct distinct_run_accs) simp
  also have "map code ?accs = take n (discover [] ?codes)"
    using codes_run_accs [of "[]" n L lines] by simp
  finally show ?thesis .
qed

lemma tn_lines_valid:
  "valid_line tn_first" "line_code tn_first = ''TN''"
  "valid_line tn_second" "line_code tn_second = ''TN''"
  using valid_lineI [OF tn_first_token _ tn_first_obs [of "[]"]]
    valid_lineI [OF tn_second_token _ tn_second_obs [of "[]"]]
  by simp_all

lemma discover_distinct: "distinct (seen @ cs) \<Longrightarrow> discover seen cs = seen @ cs"
  by (induction cs arbitrary: seen) auto

lemma us_states_dc_distinct: "distinct (us_states @ [''DC''])"
  by (simp add: us_states_def)

lemma length_us_states: "length us_states = 50"
  by (simp add: us_states_def)

lemma crowded_kept: "take NUM_STATES (discover [] (map line_code crowded)) = us_states"
  using discover_distinct [of "[]" "us_states @ [''DC'']"] us_states_dc_distinct
  by (simp add: crowded_codes NUM_STATES_def length_us_states)

lemma crowded_routed:
  "length (filter (\<lambda>c. c \<in> set us_states) (map line_code crowded)) = 50"
  using us_states_dc_distinct
  by (simp add: crowded_codes length_us_states)

lemma two_files_lines:
  "all_lines two_files [''data_tn.tdv'', ''missing.tdv'', ''data_wa.tdv''] =
     [tn_first, mild_line ''WA'', tn_second, dc_line]"
  by (simp add: two_files_def decimal_libc_def)

lemma wa_plain: "plain_code ''WA''"
  by (simp add: plain_code_def is_delim_def)

text \<open>
  \<^bold>\<open>C3\<close> (lines 176-227, 241-246). Let every line of every file that can be opened be a
  valid line and let allocations succeed. Then the run over all files, which hands one
  array from file to file, ends without a fault, and the structs that the report visits
  carry the codes of all lines in first-seen order, cut after the capacity \<open>n\<close> of the
  array; the first line of the report lists exactly these codes. Repetitions of a code
  do not matter: \<open>discover\<close> skips a code that was seen.
\<close>

theorem discovery_order:
  assumes "\<forall>line\<in>set (all_lines L paths). valid_line line" and "\<forall>i<n. malloc_ok L i"
  shows "\<exists>states. snd (read_files L paths (replicate n None)) = Inr states \<and>
     map code (found states) = take n (discover [] (map line_code (all_lines L paths))) \<and>
     print_report states =
       [Text ''States found: ''] @
       map (\<lambda>c. Text (c @ '' ''))
         (take n (discover [] (map line_code (all_lines L paths)))) @
       [Text ''\<newline>''] @ map StateBlock (found states)"
proof -
  let ?accs = "run_accs L n (all_lines L paths) []"
  have run: "snd (read_files L paths (replicate n None)) = Inr (store_of n ?accs)"
    using assms by (simp add: snd_read_files analyze_file_fresh)
  have codes: "map code (found (store_of n ?accs)) =
      take n (discover [] (map line_code (all_lines L paths)))"
    using codes_run_accs [of "[]" n L "all_lines L paths"] by (simp add: found_store_of)
  have "map (\<lambda>info. Text (code info @ '' '')) (found (store_of n ?accs)) =
      map (\<lambda>c. Text (c @ '' '')) (map code (found (store_of n ?accs)))"
    by (simp add: comp_def)
  with codes have "print_report (store_of n ?accs) =
       [Text ''States found: ''] @
       map (\<lambda>c. Text (c @ '' ''))
         (take n (discover [] (map line_code (all_lines L paths)))) @
       [Text ''\<newline>''] @ map StateBlock (found (store_of n ?accs))"
    by (simp add: print_report_def)
  with run codes show ?thesis by blast
qed

theorem discovery_order_witness:
  "map line_code (all_lines two_files [''data_tn.tdv'', ''missing.tdv'', ''data_wa.tdv'']) =
     [''TN'', ''WA'', ''TN'', ''DC''] \<and>
   (\<exists>states.
      snd (read_files two_files [''data_tn.tdv'', ''missing.tdv'', ''data_wa.tdv'']
             (replicate NUM_STATES None)) = Inr states \<and>
      map code (found states) = [''TN'', ''WA'', ''DC''])"
proof -
  have valid: "\<forall>line\<in>set (all_lines two_files [''data_tn.tdv'', ''missing.tdv'', ''data_wa.tdv'']).
      valid_line line"
    unfolding two_files_lines
    by (simp add: tn_lines_valid dc_line_valid mild_line_valid wa_plain)
  have alloc: "\<forall>i<NUM_STATES. malloc_ok two_files i"
    by (simp add: two_files_def decimal_libc_def)
  have codes: "map line_code
      (all_lines two_files [''data_tn.tdv'', ''missing.tdv'', ''data_wa.tdv'']) =
      [''TN'', ''WA'', ''TN'', ''DC'']"
    unfolding two_files_lines
    by (simp add: tn_lines_valid dc_line_valid mild_line_valid wa_plain)
  from discovery_order [OF valid alloc] codes show ?thesis
    by (auto simp: NUM_STATES_def)
qed

text \<open>
  \<^bold>\<open>C5\<close> as stated fails beyond the capacity of the array: of 51 valid lines with 51
  different codes, given to the fresh array of 50 slots, the last is dropped, and the
  record counts add up to 50.
\<close>

theorem count_sum_counterexample:
  "list_all valid_line crowded \<and> length crowded = 51 \<and>
   (\<exists>states. analyze_file (decimal_libc []) crowded (replicate NUM_STATES None) = Inr states \<and>
      (\<Sum>a\<leftarrow>found states. unat (num_records a)) = 50)"
proof -
  let ?L = "decimal_libc []"
  have alloc: "\<forall>i<NUM_STATES. malloc_ok ?L i"
    by (simp add: decimal_libc_def)
  have len: "length crowded = 51"
    by (simp add: crowded_def length_us_states)
  then have small: "length crowded < 2 ^ 64" by simp
  have "analyze_file ?L crowded (replicate NUM_STATES None) =
      Inr (store_of NUM_STATES (run_accs ?L NUM_STATES crowded []))"
    using crowded_valid alloc by (rule analyze_file_fresh)
  moreover have "(\<Sum>a\<leftarrow>run_accs ?L NUM_STATES crowded []. unat (num_records a)) = 50"
    using sum_records_fresh [OF crowded_valid alloc small]
    unfolding crowded_kept crowded_routed .
  then have "(\<Sum>a\<leftarrow>found (store_of NUM_STATES (run_accs ?L NUM_STATES crowded [])).
      unat (num_records a)) = 50"
    by (simp only: found_store_of)
  ultimately show ?thesis
    using crowded_valid len by (auto simp: list_all_iff)
qed

text \<open>
  \<^bold>\<open>C5\<close>, amended (lines 186, 205). Let valid lines be given to the fresh array, with
  allocations that succeed and fewer than \<open>2 ^ 64\<close> lines (the range of the counters).
  Then the file is processed without a fault, the record count of every struct is the
  number of lines that carry its code, and, when the lines carry at most as many
  different codes as the array has slots, the record counts add up to the number of
  lines.
\<close>

theorem record_counts:
  assumes "\<forall>line\<in>set lines. valid_line line" and "\<forall>i<n. malloc_ok L i"
    and "length lines < 2 ^ 64"
  shows "\<exists>states. analyze_file L lines (replicate n None) = Inr states \<and>
     (\<forall>a\<in>set (found states).
        unat (num_records a) = count_list (map line_code lines) (code a)) \<and>
     (card (set (map line_code lines)) \<le> n \<longrightarrow>
        (\<Sum>a\<leftarrow>found states. unat (num_records a)) = length lines)"
proof -
  let ?accs = "run_accs L n lines []"
  let ?codes = "map line_code lines"
  have run: "analyze_file L lines (replicate n None) = Inr (store_of n ?accs)"
    using assms(1,2) by (rule analyze_file_fresh)
  have each: "unat (num_records a) = count_list ?codes (code a)" if "a \<in> set ?accs" for a
  proof -
    have "count_list ?codes (code a) \<le> length ?codes"
      by (rule count_list_le_length)
    with assms(3) have "count_list ?codes (code a) < 2 ^ LENGTH(64)" by simp
    with num_records_fresh [OF that] show ?thesis
      by (simp add: of_nat_inverse)
  qed
  have total: "(\<Sum>a\<leftarrow>?accs. unat (num_records a)) = length lines"
    if "card (set ?codes) \<le> n"
  proof -
    from that have "take n (discover [] ?codes) = discover [] ?codes"
      by (simp add: length_discover)
    then have "set (take n (discover [] ?codes)) = set ?codes"
      by (simp add: set_discover)
    with sum_records_fresh [OF assms] show ?thesis by simp
  qed
  from run each total show ?thesis
    by (auto simp: found_store_of)
qed

theorem record_counts_witness:
  "\<exists>states.
     analyze_file (decimal_libc []) [tn_first, tn_second, dc_line] (replicate NUM_STATES None) =
       Inr states \<and>
     (\<Sum>a\<leftarrow>found states. unat (num_records a)) = 3"
proof -
  have "\<forall>line\<in>set [tn_first, tn_second, dc_line]. valid_line line"
    by (simp add: tn_lines_valid dc_line_valid)
  moreover have "\<forall>i<NUM_STATES. malloc_ok (decimal_libc []) i"
    by (simp add: decimal_libc_def)
  moreover have "length [tn_first, tn_second, dc_line] < 2 ^ 64"
    by simp
  moreover have "card (set (map line_code [tn_first, tn_second, dc_line])) \<le> NUM_STATES"
    by (simp add: tn_lines_valid dc_line_valid NUM_STATES_def)
  ultimately show ?thesis
    using record_counts [of "[tn_first, tn_second, dc_line]" NUM_STATES "decimal_libc []"]
    by auto
qed

section \<open>main\<close>








section \<open>Lines that are not records\<close>

lemma line_obs_tokens:
  assumes "line_token line = Some tok"
  shows "line_obs L line =
     (if 9 \<le> length (tokens (c_str line)) then Inr (line_record L line) else Inl NullPointer)"
proof -
  from assms obtain ts where ts: "tokens (c_str line) = tok # ts"
    by (cases "tokens (c_str line)") (auto simp: line_token_def fst_strtok)
  then show ?thesis
    by (simp add: line_obs_def line_record_def read_fields_tokens tokens_snd_strtok)
qed

lemma scan_store_of_fault:
  assumes d: "distinct (map code accs)" and n: "length accs \<le> n"
    and m: "\<forall>i<n. malloc_ok L i" and t: "length tok \<le> 2"
    and r: "read_fields L rest = Inl e"
    and reach: "tok \<in> set (map code accs) \<or> length accs < n"
  shows "scan L (Some tok) rest (store_of n accs) 0 = Inl e"
proof (cases "tok \<in> set (map code accs)")
  case True
  then obtain i where i: "i < length accs" "code (accs ! i) = tok"
    by (auto simp: in_set_conv_nth)
  have others: "\<forall>j. 0 \<le> j \<and> j < i \<longrightarrow>
      (\<exists>b. store_of n accs ! j = Some b \<and> code b \<noteq> tok)"
  proof (intro allI impI)
    fix j assume "0 \<le> j \<and> j < i"
    then have j: "j < length accs" "j \<noteq> i" using i by auto
    then have "code (accs ! j) \<noteq> code (accs ! i)"
      using d i(1) by (metis distinct_conv_nth length_map nth_map)
    with j i show "\<exists>b. store_of n accs ! j = Some b \<and> code b \<noteq> tok"
      by (simp add: store_of_nth_Some)
  qed
  have len: "i < length (store_of n accs)"
    using i n by (simp add: length_store_of)
  have "scan L (Some tok) rest (store_of n accs) 0 = scan L (Some tok) rest (store_of n accs) i"
    using others len by (intro scan_skip) auto
  also have "\<dots> = Inl e"
    using len i r by (simp add: scan_hit store_of_nth_Some bind_def)
  finally show ?thesis .
next
  case False
  with reach have free: "length accs < n" by simp
  have others: "\<forall>j. 0 \<le> j \<and> j < length accs \<longrightarrow>
      (\<exists>b. store_of n accs ! j = Some b \<and> code b \<noteq> tok)"
    using False by (auto simp: store_of_nth_Some)
  have "scan L (Some tok) rest (store_of n accs) 0 =
      scan L (Some tok) rest (store_of n accs) (length accs)"
    using others n by (intro scan_skip) (auto simp: length_store_of)
  also have "\<dots> = Inl e"
    using m t r n free by (simp add: scan_new length_store_of store_of_nth_None bind_def)
  finally show ?thesis .
qed

lemma scan_no_token:
  assumes "0 < n" and "length accs \<le> n" and "\<forall>i<n. malloc_ok L i"
  shows "scan L None rest (store_of n accs) 0 = Inl NullPointer"
  using assms
  by (cases accs) (simp_all add: scan.simps [of _ _ _ _ 0] store_of_def)

lemma short_line_token: "line_token short_line = Some ''TN''"
  by (simp add: short_line_def eval_line)

lemma short_line_obs: "line_obs (decimal_libc files) short_line = Inl NullPointer"
  by (simp add: short_line_def eval_line)

lemma garbled_line_token: "line_token garbled_line = Some ''TN''"
  by (simp add: garbled_line_def eval_line)

lemma garbled_line_obs: "line_obs (decimal_libc files) garbled_line = Inr garbled"
  by (simp add: garbled_line_def garbled_def eval_line)

text \<open>
  \<^bold>\<open>C9\<close> as stated fails on both kinds of line. A line with two fields makes the run
  pass a null pointer to \<^verbatim>\<open>atof\<close>, and the good line after it is never processed. A
  line with text in place of numbers is not skipped: it creates a struct from the values
  that the conversions return.
\<close>

theorem malformed_line_counterexample:
  "analyze_file (decimal_libc []) [short_line, tn_first] (replicate NUM_STATES None) =
     Inl NullPointer \<and>
   ingest_line (decimal_libc []) [None, None] garbled_line =
     Inr [Some (new_info ''TN'' garbled), None] \<and>
   num_records (new_info ''TN'' garbled) = 1"
proof -
  have "ingest_line (decimal_libc []) (replicate NUM_STATES None) short_line = Inl NullPointer"
    using short_line_obs [of "[]"]
    by (simp add: ingest_line_scan short_line_token scan.simps [of _ _ _ _ 0] NUM_STATES_def
        decimal_libc_def line_obs_def bind_def)
  moreover have "ingest_line (decimal_libc []) [None, None] garbled_line =
      Inr [Some (new_info ''TN'' garbled), None]"
    using garbled_line_obs [of "[]"]
    by (simp add: ingest_line_scan garbled_line_token scan.simps [of _ _ _ _ 0]
        decimal_libc_def line_obs_def bind_def)
  ultimately show ?thesis
    by (simp add: bind_def new_info_def)
qed

text \<open>
  \<^bold>\<open>C9\<close>, amended (lines 175-227). Lines are not validated. On an array filled from the
  front with one struct per code, with allocations that succeed: a line without any
  token makes the run pass a null pointer to the C library. A line whose first token
  has at most two characters is dropped when the array is full and holds no struct for
  it; otherwise, with nine or more tokens it is folded into the array with the values
  that the conversions return for its text, whatever that text is, and with fewer
  tokens the run passes a null pointer to a conversion. After a null pointer no further
  line is processed.
\<close>

theorem lines_not_validated:
  assumes "distinct (map code accs)" and "length accs \<le> n" and "\<forall>i<n. malloc_ok L i"
  shows "(line_token line = None \<longrightarrow> 0 < n \<longrightarrow>
       ingest_line L (store_of n accs) line = Inl NullPointer) \<and>
    (\<forall>tok. line_token line = Some tok \<longrightarrow> length tok \<le> 2 \<longrightarrow>
       ingest_line L (store_of n accs) line =
         (if tok \<notin> set (map code accs) \<and> length accs = n then Inr (store_of n accs)
          else if 9 \<le> length (tokens (c_str line))
               then Inr (store_of n (step_accs n tok (line_record L line) accs))
               else Inl NullPointer)) \<and>
    (ingest_line L (store_of n accs) line = Inl NullPointer \<longrightarrow>
       analyze_file L (line # lines) (store_of n accs) = Inl NullPointer)"
proof (intro conjI impI allI)
  assume "line_token line = None" and "0 < n"
  then show "ingest_line L (store_of n accs) line = Inl NullPointer"
    using assms by (simp add: ingest_line_scan scan_no_token)
next
  fix tok
  assume tok: "line_token line = Some tok" and len: "length tok \<le> 2"
  let ?rest = "snd (strtok (c_str line))"
  show "ingest_line L (store_of n accs) line =
         (if tok \<notin> set (map code accs) \<and> length accs = n then Inr (store_of n accs)
          else if 9 \<le> length (tokens (c_str line))
               then Inr (store_of n (step_accs n tok (line_record L line) accs))
               else Inl NullPointer)"
  proof (cases "tok \<notin> set (map code accs) \<and> length accs = n")
    case True
    then have "\<forall>s\<in>set (store_of n accs). \<exists>b. s = Some b \<and> code b \<noteq> tok"
      by (auto simp: store_of_def)
    from ingest_line_full [OF this tok] True show ?thesis by simp
  next
    case False
    with assms(2) have reach: "tok \<in> set (map code accs) \<or> length accs < n"
      by auto
    show ?thesis
    proof (cases "9 \<le> length (tokens (c_str line))")
      case True
      with tok have "read_fields L ?rest = Inr (line_record L line)"
        using line_obs_tokens [OF tok, of L] by (simp add: line_obs_def)
      from scan_store_of [OF assms len this] tok True False show ?thesis
        by (auto simp: ingest_line_scan)
    next
      case short: False
      with tok have "read_fields L ?rest = Inl NullPointer"
        using line_obs_tokens [OF tok, of L] by (simp add: line_obs_def)
      from scan_store_of_fault [OF assms len this reach] tok short False show ?thesis
        by (auto simp: ingest_line_scan)
    qed
  qed
next
  assume "ingest_line L (store_of n accs) line = Inl NullPointer"
  then show "analyze_file L (line # lines) (store_of n accs) = Inl NullPointer"
    by (simp add: bind_def)
qed

theorem lines_not_validated_witness:
  "ingest_line (decimal_libc []) (store_of 2 []) garbled_line =
     Inr (store_of 2 [new_info ''TN'' garbled]) \<and>
   ingest_line (decimal_libc []) (store_of 2 []) short_line = Inl NullPointer \<and>
   analyze_file (decimal_libc []) [short_line, tn_first] (store_of 2 []) = Inl NullPointer"
proof -
  have alloc: "\<forall>i<2. malloc_ok (decimal_libc []) i"
    by (simp add: decimal_libc_def)
  have long: "9 \<le> length (tokens (c_str garbled_line))"
    and rec: "line_record (decimal_libc []) garbled_line = garbled"
    using line_obs_tokens [OF garbled_line_token, of "decimal_libc []"] garbled_line_obs [of "[]"]
    by (simp_all split: if_splits)
  have short: "\<not> 9 \<le> length (tokens (c_str short_line))"
    using line_obs_tokens [OF short_line_token, of "decimal_libc []"] short_line_obs [of "[]"]
    by (simp split: if_splits)
  from lines_not_validated [of "[]" 2 "decimal_libc []" garbled_line, OF _ _ alloc]
    garbled_line_token long rec
  have "ingest_line (decimal_libc []) (store_of 2 []) garbled_line =
      Inr (store_of 2 [new_info ''TN'' garbled])"
    by (simp add: step_accs_def)
  moreover
  from lines_not_validated [of "[]" 2 "decimal_libc []" short_line "[tn_first]", OF _ _ alloc]
    short_line_token short
  have "ingest_line (decimal_libc []) (store_of 2 []) short_line = Inl NullPointer"
    and "analyze_file (decimal_libc []) [short_line, tn_first] (store_of 2 []) = Inl NullPointer"
    by simp_all
  ultimately show ?thesis by simp
qed

end
